theory Spec2Isabelle
  imports Main "HOL-Library.Word" "HOL-Library.Sublist"
begin

section \<open>convert\_imageset\_multilabels: the data model\<close>

text \<open>
  A shallow embedding of \<^verbatim>\<open>tools/convert_imageset_multilabels.cpp\<close>, the
  \<^verbatim>\<open>USE_OPENCV\<close> build. The program reads a manifest (LISTFILE), one sample per
  line, and writes two key-value stores: one with the image records, one with the
  multi-label records.

  C++ \<^verbatim>\<open>int\<close> values are modelled as \<open>int\<close>, and every result the program computes
  in \<^verbatim>\<open>int\<close> arithmetic (the parsed labels, the composite label, the expected size)
  is wrapped to 32 bits by \<open>int32\<close>, as the compiled program does. The row counter
  and the loop index are \<open>nat\<close> (they start at 0 and only grow).

  The key-value backend is the abstract store the program uses it as: a store that
  opens, transactions that buffer puts, commits that make a batch durable. Logging
  has no effect on the result and is left out.
\<close>

type_synonym byte = "8 word"

text \<open>A value as a 32-bit two's complement \<^verbatim>\<open>int\<close> holds it: wrapped into \<open>-2^31 ..< 2^31\<close>.\<close>

definition int32 :: "int \<Rightarrow> int" where
  "int32 x = (x + 2 ^ 31) mod 2 ^ 32 - 2 ^ 31"

text \<open>The protobuf message \<^verbatim>\<open>Datum\<close> (the fields this program touches).\<close>

record datum =
  channels :: int
  height :: int
  width :: int
  data :: "byte list"
  label :: int
  encoded :: bool

text \<open>A default-constructed \<^verbatim>\<open>Datum\<close>: every field at its protobuf default.\<close>

definition Datum :: datum where
  "Datum = \<lparr>channels = 0, height = 0, width = 0, data = [], label = 0, encoded = False\<rparr>"

text \<open>The gflags of the tool (lines 31-44); \<^verbatim>\<open>--backend\<close> only selects the engine.\<close>

record flags =
  FLAGS_gray :: bool
  FLAGS_shuffle :: bool
  FLAGS_resize_width :: int
  FLAGS_resize_height :: int
  FLAGS_check_size :: bool
  FLAGS_encoded :: bool
  FLAGS_encode_type :: string

text \<open>
  How a run can end other than by \<^verbatim>\<open>return 0\<close>:
  \<^item> \<open>Usage\<close>: fewer than five arguments, \<^verbatim>\<open>return 1\<close> (line 66);
  \<^item> \<open>VectorOutOfRange\<close>: \<^verbatim>\<open>operator[]\<close> of a \<^verbatim>\<open>std::vector\<close> past its end
    (undefined behaviour; on an empty vector a read through a null pointer);
  \<^item> \<open>SubstrOutOfRange\<close>: \<^verbatim>\<open>std::string::substr(pos)\<close> with \<^verbatim>\<open>pos > size()\<close> throws
    \<^verbatim>\<open>std::out_of_range\<close>, which nothing catches;
  \<^item> \<open>CheckEqFailed\<close>: a failed glog \<^verbatim>\<open>CHECK_EQ\<close>, which aborts the process.
\<close>

datatype error = Usage | VectorOutOfRange | SubstrOutOfRange | CheckEqFailed

section \<open>Parsing the manifest (lines 74-89)\<close>

text \<open>
  \<^verbatim>\<open>std::getline(ss, field, delim)\<close> on the rest of a line: the characters before the
  first delimiter, and the stream after that delimiter. On an exhausted stream the
  field stays empty.
\<close>

definition getline :: "char \<Rightarrow> string \<Rightarrow> string \<times> string" where
  "getline delim ss =
     (takeWhile (\<lambda>c. c \<noteq> delim) ss, drop 1 (dropWhile (\<lambda>c. c \<noteq> delim) ss))"

definition isspace :: "char \<Rightarrow> bool" where
  "isspace c = (c \<in> set [CHR '' '', CHR 0x09, CHR 0x0A, CHR 0x0B, CHR 0x0C, CHR 0x0D])"

definition isdigit :: "char \<Rightarrow> bool" where
  "isdigit c = (48 \<le> (of_char c :: nat) \<and> (of_char c :: nat) \<le> 57)"

definition digit_val :: "char \<Rightarrow> int" where
  "digit_val c = int (of_char c) - 48"

text \<open>
  C's \<^verbatim>\<open>atoi\<close>: leading white space, an optional sign, then the longest run of
  decimal digits; 0 when there is none. It is \<^verbatim>\<open>(int) strtol(s, NULL, 10)\<close>: the value
  is clamped to the range of a 64-bit \<^verbatim>\<open>long\<close> and then cut to 32 bits.
\<close>

definition atoi :: "string \<Rightarrow> int" where
  "atoi s =
     (let t = dropWhile isspace s;
          (neg, u) = (case t of
                        [] \<Rightarrow> (False, [])
                      | c # r \<Rightarrow> if c = CHR ''-'' then (True, r)
                                 else if c = CHR ''+'' then (False, r)
                                 else (False, t));
          v = foldl (\<lambda>a c. a * 10 + digit_val c) 0 (takeWhile isdigit u)
      in int32 (max (- (2 ^ 63)) (min (2 ^ 63 - 1) (if neg then - v else v))))"

text \<open>
  One iteration of the loop of lines 79-89: the entry pushed on \<^verbatim>\<open>lines\<close> and the
  entry pushed on \<^verbatim>\<open>labels\<close>.
\<close>

definition parse_line :: "string \<Rightarrow> (string \<times> int) \<times> (int \<times> int)" where
  "parse_line line =
     (let delim = CHR '' '';
          (fileloc, s1) = getline delim line;
          (label_1, s2) = getline delim s1;
          (label_2, s3) = getline delim s2;
          (label_3, s4) = getline delim s3
      in ((fileloc, 0), (atoi label_1, int32 (atoi label_2 * 4 + atoi label_3))))"

section \<open>Keys, encoding type, label bytes\<close>

fun digits10 :: "nat \<Rightarrow> string" where
  "digits10 n =
     (if n < 10 then [char_of (48 + n)]
      else digits10 (n div 10) @ [char_of (48 + n mod 10)])"

text \<open>
  Modelled from the spec: \<^verbatim>\<open>caffe::format_int\<close> (caffe/util/format.hpp) is not among
  the sources. The spec's \<open>zeroPad(i, 8)\<close>: the decimal digits of the index, padded
  on the left with zeros to the given width.
\<close>

definition format_int :: "nat \<Rightarrow> nat \<Rightarrow> string" where
  "format_int n w = (let s = digits10 n in replicate (w - length s) CHR ''0'' @ s)"

text \<open>Lines 148 and 202: the key of row \<open>line_id\<close>.\<close>

definition key_str :: "nat \<Rightarrow> string \<Rightarrow> string" where
  "key_str line_id path = format_int line_id 8 @ ''_'' @ path"

text \<open>\<^verbatim>\<open>std::string::rfind(c)\<close>: the last position of \<open>c\<close>; \<open>None\<close> is \<^verbatim>\<open>npos\<close>.\<close>

definition rfind :: "string \<Rightarrow> char \<Rightarrow> nat option" where
  "rfind fn c =
     (if c \<in> set fn
      then Some (length fn - 1 - length (takeWhile (\<lambda>x. x \<noteq> c) (rev fn)))
      else None)"

text \<open>
  \<^verbatim>\<open>std::string::substr(pos)\<close>: the suffix from \<open>pos\<close>; it throws when
  \<^verbatim>\<open>pos > size()\<close>, and \<^verbatim>\<open>npos\<close> is larger than every size.
\<close>

definition substr :: "string \<Rightarrow> nat option \<Rightarrow> error + string" where
  "substr fn p =
     (case p of
        None \<Rightarrow> Inl SubstrOutOfRange
      | Some i \<Rightarrow> if i \<le> length fn then Inr (drop i fn) else Inl SubstrOutOfRange)"

definition tolower :: "char \<Rightarrow> char" where
  "tolower c =
     (let n = (of_char c :: nat) in if 65 \<le> n \<and> n \<le> 90 then char_of (n + 32) else c)"

text \<open>
  Lines 123-132: the encoding type handed to the reader for the file \<open>fn\<close>. The
  warning of line 129 is only logged: \<^verbatim>\<open>substr\<close> is called with \<^verbatim>\<open>npos\<close> all the same.
\<close>

definition guess_enc :: "flags \<Rightarrow> string \<Rightarrow> error + string" where
  "guess_enc fl fn =
     (let enc = FLAGS_encode_type fl in
      if FLAGS_encoded fl \<and> enc = [] then
        (case substr fn (rfind fn CHR ''.'') of
           Inl e \<Rightarrow> Inl e
         | Inr e \<Rightarrow> Inr (map tolower e))
      else Inr enc)"

text \<open>
  The bytes of one 32-bit \<^verbatim>\<open>int\<close> in memory (two's complement, little-endian, as on
  the x86 machines the tool is built for), and the array \<^verbatim>\<open>int label_data[]\<close> of line 183.
\<close>

definition int_bytes :: "int \<Rightarrow> byte list" where
  "int_bytes x = map (\<lambda>k. word_of_int (x div 256 ^ k)) [0, 1, 2, 3]"

definition label_data :: "int \<times> int \<Rightarrow> byte list" where
  "label_data p = int_bytes (fst p) @ int_bytes (snd p)"

text \<open>
  protobuf's accessor for a \<^verbatim>\<open>bytes\<close> field, \<^verbatim>\<open>set_data(const void* value, size_t size)\<close>:
  the field becomes the first \<open>size\<close> bytes at \<open>value\<close>.
\<close>

definition set_data :: "byte list \<Rightarrow> nat \<Rightarrow> datum \<Rightarrow> datum" where
  "set_data mem size_bytes d = d\<lparr>data := take size_bytes mem\<rparr>"

text \<open>Lines 183-188: the label record of one row, written into the reused \<^verbatim>\<open>datum_label\<close>.\<close>

definition label_datum :: "int \<times> int \<Rightarrow> datum \<Rightarrow> datum" where
  "label_datum p d =
     (set_data (label_data p) 2 (d\<lparr>channels := 2, height := 1, width := 1\<rparr>))\<lparr>label := 0\<rparr>"

section \<open>The collaborators that are not in this file\<close>

text \<open>
  The reader \<^verbatim>\<open>bool ReadImageToDatum(filename, label, height, width, is_color,
  encoding, Datum* datum)\<close> is a parameter of the model: from its arguments and the
  \<^verbatim>\<open>Datum\<close> it is handed, the status and the \<^verbatim>\<open>Datum\<close> it leaves behind.
\<close>

type_synonym reader =
  "string \<Rightarrow> int \<Rightarrow> int \<Rightarrow> int \<Rightarrow> bool \<Rightarrow> string \<Rightarrow> datum \<Rightarrow> bool \<times> datum"

text \<open>
  Modelled from the spec: \<^verbatim>\<open>ReadImageToDatum\<close> (caffe/util/io.hpp) is not among the
  sources. The spec's Record Encoder calls the external \<open>encode\<close> collaborator
  with the path, the resize sizes, the colour switch and the encoding type; a failure
  is the skip signal and leaves the record alone; a success is a payload record
  \<open>{channels, height, width, data, label, isPreEncoded}\<close> carrying the label the
  encoder was given. The collaborator \<open>encode\<close> returns the shape, the bytes and
  whether they are pre-encoded.
\<close>

definition ReadImageToDatum ::
  "(string \<Rightarrow> int \<Rightarrow> int \<Rightarrow> bool \<Rightarrow> string \<Rightarrow> (int \<times> int \<times> int \<times> byte list \<times> bool) option)
   \<Rightarrow> reader" where
  "ReadImageToDatum encode filename lbl h w is_color enc d =
     (case encode filename h w is_color enc of
        None \<Rightarrow> (False, d)
      | Some (c, hh, ww, bytes, pre) \<Rightarrow>
          (True, \<lparr>channels = c, height = hh, width = ww, data = bytes,
                  label = lbl, encoded = pre\<rparr>))"

text \<open>
  Modelled from the spec: \<^verbatim>\<open>caffe::shuffle\<close> (caffe/util/rng.hpp) is not among the
  sources. The spec's Order Randomizer applies a permutation to the sequence; the
  permutation drawn by the random source is the argument \<open>perm\<close>, a list of
  positions (anything that is not a permutation of the positions leaves the
  sequence as it is).
\<close>

definition shuffle :: "nat list \<Rightarrow> 'a list \<Rightarrow> 'a list" where
  "shuffle perm xs = (if sort perm = [0..<length xs] then map (\<lambda>i. xs ! i) perm else xs)"

section \<open>Writing one store\<close>

text \<open>
  The state of one write pass: the batches the backend has committed, in order
  (\<open>commits\<close>); the puts buffered in the open transaction (\<open>txn\<close>); the locals
  \<^verbatim>\<open>count\<close>, \<^verbatim>\<open>data_size\<close>, \<^verbatim>\<open>data_size_initialized\<close>; and the \<^verbatim>\<open>Datum\<close> object
  that every iteration reuses (\<open>cur\<close>). A stored value is the \<^verbatim>\<open>Datum\<close> itself:
  \<^verbatim>\<open>SerializeToString\<close> cannot fail on a message without required fields.
\<close>

record pass_state =
  commits :: "(string \<times> datum) list list"
  txn :: "(string \<times> datum) list"
  count :: nat
  data_size :: int
  data_size_initialized :: bool
  cur :: datum

text \<open>Lines 110-119 and 171-179: a new store, a first transaction, the locals reset.\<close>

definition new_pass :: pass_state where
  "new_pass = \<lparr>commits = [], txn = [], count = 0, data_size = 0,
                data_size_initialized = False, cur = Datum\<rparr>"

text \<open>What the store holds in the end: the committed puts, in the order they were made.\<close>

definition entries :: "pass_state \<Rightarrow> (string \<times> datum) list" where
  "entries st = concat (commits st)"

text \<open>
  Lines 137-146 and 191-200, the same code in both loops: with \<^verbatim>\<open>--check_size\<close>, the
  first record sets \<^verbatim>\<open>data_size\<close> and every later one is checked by \<^verbatim>\<open>CHECK_EQ\<close>.
  \<^verbatim>\<open>CHECK_EQ\<close> compares the unsigned \<^verbatim>\<open>data.size()\<close> with the \<^verbatim>\<open>int\<close> converted to
  unsigned; a negative \<^verbatim>\<open>data_size\<close> converts to a value no size reaches, and in the
  model it equals no length either.
\<close>

definition size_check :: "bool \<Rightarrow> datum \<Rightarrow> pass_state \<Rightarrow> error + pass_state" where
  "size_check chk d st =
     (if chk then
        (if \<not> data_size_initialized st then
           Inr (st\<lparr>data_size := int32 (channels d * height d * width d),
                    data_size_initialized := True\<rparr>)
         else if int (length (data d)) = data_size st then Inr st
         else Inl CheckEqFailed)
      else Inr st)"

text \<open>
  Lines 153-160 and 207-214, the same code in both loops: the put, then the commit
  and the fresh transaction when the incremented \<^verbatim>\<open>count\<close> is a multiple of 1000.
\<close>

definition put_commit :: "string \<Rightarrow> datum \<Rightarrow> pass_state \<Rightarrow> pass_state" where
  "put_commit key_s d st =
     (let t = txn st @ [(key_s, d)]; c = count st + 1 in
      if c mod 1000 = 0
      then st\<lparr>commits := commits st @ [t], txn := [], count := c\<rparr>
      else st\<lparr>txn := t, count := c\<rparr>)"

text \<open>Lines 163-166 and 217-220: the last, partial batch.\<close>

definition last_batch :: "pass_state \<Rightarrow> pass_state" where
  "last_batch st =
     (if count st mod 1000 \<noteq> 0
      then st\<lparr>commits := commits st @ [txn st], txn := []\<rparr>
      else st)"

text \<open>The loop of lines 121-161, from \<open>line_id\<close> on.\<close>

function payload_loop ::
  "flags \<Rightarrow> reader \<Rightarrow> string \<Rightarrow> (string \<times> int) list \<Rightarrow> nat \<Rightarrow> pass_state
   \<Rightarrow> error + pass_state" where
  "payload_loop fl rd root_folder lines line_id st =
     (if line_id < length lines then
        (case guess_enc fl (fst (lines ! line_id)) of
           Inl e \<Rightarrow> Inl e
         | Inr enc \<Rightarrow>
             (case rd (root_folder @ fst (lines ! line_id)) (snd (lines ! line_id))
                     (max 0 (FLAGS_resize_height fl)) (max 0 (FLAGS_resize_width fl))
                     (\<not> FLAGS_gray fl) enc (cur st) of
                (status, d) \<Rightarrow>
                  if \<not> status
                  then payload_loop fl rd root_folder lines (Suc line_id) (st\<lparr>cur := d\<rparr>)
                  else
                    (case size_check (FLAGS_check_size fl) d (st\<lparr>cur := d\<rparr>) of
                       Inl e \<Rightarrow> Inl e
                     | Inr st' \<Rightarrow>
                         payload_loop fl rd root_folder lines (Suc line_id)
                           (put_commit (key_str line_id (fst (lines ! line_id))) d st'))))
      else Inr st)"
  by pat_completeness auto
termination
  by (relation "measure (\<lambda>(fl, rd, root_folder, lines, line_id, st). length lines - line_id)")
    auto

text \<open>
  The loop of lines 181-215, from \<open>line_id\<close> on. \<^verbatim>\<open>labels[line_id]\<close> is read
  unchecked; past the end of \<^verbatim>\<open>labels\<close> it is \<open>VectorOutOfRange\<close>.
\<close>

function label_loop ::
  "flags \<Rightarrow> (string \<times> int) list \<Rightarrow> (int \<times> int) list \<Rightarrow> nat \<Rightarrow> pass_state
   \<Rightarrow> error + pass_state" where
  "label_loop fl lines labels line_id st =
     (if line_id < length lines then
        (if line_id < length labels then
           (let d = label_datum (labels ! line_id) (cur st) in
            case size_check (FLAGS_check_size fl) d (st\<lparr>cur := d\<rparr>) of
              Inl e \<Rightarrow> Inl e
            | Inr st' \<Rightarrow>
                label_loop fl lines labels (Suc line_id)
                  (put_commit (key_str line_id (fst (lines ! line_id))) d st'))
         else Inl VectorOutOfRange)
      else Inr st)"
  by pat_completeness auto
termination
  by (relation "measure (\<lambda>(fl, lines, labels, line_id, st). length lines - line_id)") auto

text \<open>Lines 108-166: the payload store.\<close>

definition payload_pass ::
  "flags \<Rightarrow> reader \<Rightarrow> string \<Rightarrow> (string \<times> int) list \<Rightarrow> error + pass_state" where
  "payload_pass fl rd root_folder lines =
     (case payload_loop fl rd root_folder lines 0 new_pass of
        Inl e \<Rightarrow> Inl e
      | Inr st \<Rightarrow> Inr (last_batch st))"

text \<open>Lines 169-220: the label store.\<close>

definition label_pass ::
  "flags \<Rightarrow> (string \<times> int) list \<Rightarrow> (int \<times> int) list \<Rightarrow> error + pass_state" where
  "label_pass fl lines labels =
     (case label_loop fl lines labels 0 new_pass of
        Inl e \<Rightarrow> Inl e
      | Inr st \<Rightarrow> Inr (last_batch st))"

section \<open>The program\<close>

text \<open>
  Lines 74-89: the two vectors the manifest is parsed into. \<open>infile\<close> is the
  manifest as \<^verbatim>\<open>std::getline\<close> yields it, line by line (no line when the file
  cannot be read).
\<close>

definition parse_manifest :: "string list \<Rightarrow> (string \<times> int) list \<times> (int \<times> int) list" where
  "parse_manifest infile =
     (map (\<lambda>l. fst (parse_line l)) infile, map (\<lambda>l. snd (parse_line l)) infile)"

text \<open>Lines 95-99: the shuffle, when asked for; \<open>perm\<close> is what the random source draws.\<close>

definition maybe_shuffle :: "flags \<Rightarrow> nat list \<Rightarrow> 'a list \<Rightarrow> 'a list" where
  "maybe_shuffle fl perm xs = (if FLAGS_shuffle fl then shuffle perm xs else xs)"

text \<open>
  Lines 69-221, the run once the arguments are accepted. Lines 92-93 read
  \<^verbatim>\<open>lines[0]\<close> and \<^verbatim>\<open>labels[0]\<close> for the log, whatever the size of the vectors.
  Line 98 shuffles \<^verbatim>\<open>lines\<close>; \<^verbatim>\<open>labels\<close> is used as parsed. The result is the pair
  of stores, payload first.
\<close>

definition convert ::
  "flags \<Rightarrow> string \<Rightarrow> string list \<Rightarrow> nat list \<Rightarrow> reader
   \<Rightarrow> error + (pass_state \<times> pass_state)" where
  "convert fl root_folder infile perm rd =
     (case parse_manifest infile of
        (lines, labels) \<Rightarrow>
          if lines = [] \<or> labels = [] then Inl VectorOutOfRange
          else
            (let lines = maybe_shuffle fl perm lines in
             case payload_pass fl rd root_folder lines of
               Inl e \<Rightarrow> Inl e
             | Inr p \<Rightarrow>
                 (case label_pass fl lines labels of
                    Inl e \<Rightarrow> Inl e
                  | Inr l \<Rightarrow> Inr (p, l))))"

text \<open>
  \<^verbatim>\<open>main\<close>: \<open>argv\<close> is the argument vector once gflags has taken the flags out
  (program name, ROOTFOLDER, LISTFILE, DB\_NAME, DB\_LABEL).
\<close>

definition main ::
  "flags \<Rightarrow> string list \<Rightarrow> string list \<Rightarrow> nat list \<Rightarrow> reader
   \<Rightarrow> error + (pass_state \<times> pass_state)" where
  "main fl argv infile perm rd =
     (if length argv < 5 then Inl Usage else convert fl (argv ! 1) infile perm rd)"

section \<open>Notions used by the statements\<close>

text \<open>Every put issued so far, committed or still buffered, in order.\<close>

definition puts :: "pass_state \<Rightarrow> (string \<times> datum) list" where
  "puts st = concat (commits st) @ txn st"

text \<open>
  The batching invariant: the open transaction holds the puts made since the last
  commit, and every committed batch has 1000 puts.
\<close>

definition batch_inv :: "pass_state \<Rightarrow> bool" where
  "batch_inv st =
     (length (txn st) = count st mod 1000 \<and>
      map length (commits st) = replicate (count st div 1000) 1000)"

text \<open>The call of lines 133-135 for row \<open>j\<close>.\<close>

abbreviation read_row ::
  "flags \<Rightarrow> reader \<Rightarrow> string \<Rightarrow> (string \<times> int) list \<Rightarrow> nat \<Rightarrow> string \<Rightarrow> datum \<Rightarrow> bool \<times> datum" where
  "read_row fl rd root_folder lines j enc c \<equiv>
     rd (root_folder @ fst (lines ! j)) (snd (lines ! j))
        (max 0 (FLAGS_resize_height fl)) (max 0 (FLAGS_resize_width fl))
        (\<not> FLAGS_gray fl) enc c"

text \<open>The vector \<^verbatim>\<open>lines\<close> both loops run over: the parsed rows, shuffled or not.\<close>

definition write_order :: "flags \<Rightarrow> nat list \<Rightarrow> string list \<Rightarrow> (string \<times> int) list" where
  "write_order fl perm infile = maybe_shuffle fl perm (fst (parse_manifest infile))"

text \<open>What a run leaves in the two stores (payload first), or how it ended.\<close>

definition stored ::
  "error + (pass_state \<times> pass_state)
   \<Rightarrow> error + ((string \<times> datum) list \<times> (string \<times> datum) list)" where
  "stored r = (case r of Inl e \<Rightarrow> Inl e | Inr (p, l) \<Rightarrow> Inr (entries p, entries l))"

text \<open>The default value of every flag (lines 31-44).\<close>

definition default_flags :: flags where
  "default_flags = \<lparr>FLAGS_gray = False, FLAGS_shuffle = False, FLAGS_resize_width = 0,
     FLAGS_resize_height = 0, FLAGS_check_size = False, FLAGS_encoded = False,
     FLAGS_encode_type = ''''\<rparr>"

text \<open>
  A reader for the concrete runs below: \<^verbatim>\<open>r/missing.jpg\<close> cannot be read,
  \<^verbatim>\<open>r/big.jpg\<close> is a 1x2x2 image, every other file a 1x1x2 image.
\<close>

definition example_reader :: reader where
  "example_reader filename lbl h w is_color enc d =
     (if filename = ''r/missing.jpg'' then (False, d)
      else if filename = ''r/big.jpg'' then
        (True, \<lparr>channels = 1, height = 2, width = 2, data = [1, 2, 3, 4], label = lbl,
                encoded = False\<rparr>)
      else
        (True, \<lparr>channels = 1, height = 1, width = 2, data = [7, 8], label = lbl,
                encoded = False\<rparr>))"

text \<open>
  A reader is stateless for a run when its status does not depend on the \<^verbatim>\<open>Datum\<close>
  it is handed (whether a file can be read and decoded is a matter of the file).
\<close>

definition stateless :: "flags \<Rightarrow> reader \<Rightarrow> string \<Rightarrow> (string \<times> int) list \<Rightarrow> bool" where
  "stateless fl rd root_folder lines =
     (\<forall>j enc c c'. fst (read_row fl rd root_folder lines j enc c) =
                    fst (read_row fl rd root_folder lines j enc c'))"

text \<open>Whether the read of row \<open>j\<close> succeeds, for a stateless reader.\<close>

definition row_ok :: "flags \<Rightarrow> reader \<Rightarrow> string \<Rightarrow> (string \<times> int) list \<Rightarrow> nat \<Rightarrow> bool" where
  "row_ok fl rd root_folder lines j =
     (case guess_enc fl (fst (lines ! j)) of
        Inl e \<Rightarrow> False
      | Inr enc \<Rightarrow> fst (read_row fl rd root_folder lines j enc Datum))"

text \<open>The sizes of the commits the backend received, in order.\<close>

definition commit_sizes :: "pass_state \<Rightarrow> nat list" where
  "commit_sizes st = map length (commits st)"

text \<open>
  The commit sizes for \<open>n\<close> puts, as the batching rule states them: a batch of 1000
  for every full thousand, then the rest when there is one.
\<close>

definition batch_sizes :: "nat \<Rightarrow> nat list" where
  "batch_sizes n = replicate (n div 1000) 1000 @ (if n mod 1000 = 0 then [] else [n mod 1000])"

text \<open>
  An \<open>encode\<close> collaborator for the concrete runs below: \<^verbatim>\<open>r/missing.jpg\<close>
  cannot be decoded, every other file is a 1x1x2 image.
\<close>

definition example_encode ::
  "string \<Rightarrow> int \<Rightarrow> int \<Rightarrow> bool \<Rightarrow> string \<Rightarrow> (int \<times> int \<times> int \<times> byte list \<times> bool) option" where
  "example_encode filename h w is_color enc =
     (if filename = ''r/missing.jpg'' then None else Some (1, 1, 2, [7, 8], False))"

text \<open>The encoding type row by row: what lines 123-132 compute when they do not throw.\<close>

definition enc_of :: "flags \<Rightarrow> string \<Rightarrow> string" where
  "enc_of fl fn = (case guess_enc fl fn of Inl e \<Rightarrow> [] | Inr enc \<Rightarrow> enc)"

text \<open>
  A reader is memoryless for a run when neither its status nor, on success, the
  record it leaves depends on the \<^verbatim>\<open>Datum\<close> it is handed.
\<close>

definition memoryless :: "flags \<Rightarrow> reader \<Rightarrow> string \<Rightarrow> (string \<times> int) list \<Rightarrow> bool" where
  "memoryless fl rd root_folder lines =
     (\<forall>j enc c c'.
        fst (read_row fl rd root_folder lines j enc c) =
        fst (read_row fl rd root_folder lines j enc c') \<and>
        (fst (read_row fl rd root_folder lines j enc c) \<longrightarrow>
           snd (read_row fl rd root_folder lines j enc c) =
           snd (read_row fl rd root_folder lines j enc c')))"

text \<open>The record a memoryless reader leaves for row \<open>j\<close>.\<close>

definition row_rec :: "flags \<Rightarrow> reader \<Rightarrow> string \<Rightarrow> (string \<times> int) list \<Rightarrow> nat \<Rightarrow> datum" where
  "row_rec fl rd root_folder lines j =
     snd (read_row fl rd root_folder lines j (enc_of fl (fst (lines ! j))) Datum)"

text \<open>The positions from \<open>i\<close> on whose read succeeds, in order.\<close>

definition written_rows ::
  "flags \<Rightarrow> reader \<Rightarrow> string \<Rightarrow> (string \<times> int) list \<Rightarrow> nat \<Rightarrow> nat list" where
  "written_rows fl rd root_folder lines i =
     filter (row_ok fl rd root_folder lines) [i..<length lines]"

text \<open>The entry of row \<open>j\<close>: its key, and the record read for it.\<close>

definition row_entry ::
  "flags \<Rightarrow> reader \<Rightarrow> string \<Rightarrow> (string \<times> int) list \<Rightarrow> nat \<Rightarrow> string \<times> datum" where
  "row_entry fl rd root_folder lines j =
     (format_int j 8 @ ''_'' @ fst (lines ! j), row_rec fl rd root_folder lines j)"

text \<open>The expected size a record sets (line 139), and the size it is compared by (line 143).\<close>

definition shape_size :: "datum \<Rightarrow> int" where
  "shape_size d = int32 (channels d * height d * width d)"

definition data_len :: "datum \<Rightarrow> int" where
  "data_len d = int (length (data d))"

section \<open>The payload loop, one iteration at a time\<close>

declare payload_loop.simps [simp del] label_loop.simps [simp del]

lemma payload_loop_done:
  "\<not> i < length lines \<Longrightarrow> payload_loop fl rd root lines i st = Inr st"
  by (subst payload_loop.simps) simp

lemma payload_loop_guess_fail:
  "i < length lines \<Longrightarrow> guess_enc fl (fst (lines ! i)) = Inl e \<Longrightarrow>
   payload_loop fl rd root lines i st = Inl e"
  by (subst payload_loop.simps) simp

lemma payload_loop_skip:
  "i < length lines \<Longrightarrow> guess_enc fl (fst (lines ! i)) = Inr enc \<Longrightarrow>
   read_row fl rd root lines i enc (cur st) = (False, d) \<Longrightarrow>
   payload_loop fl rd root lines i st = payload_loop fl rd root lines (Suc i) (st\<lparr>cur := d\<rparr>)"
  by (subst payload_loop.simps) simp

lemma payload_loop_check_fail:
  "i < length lines \<Longrightarrow> guess_enc fl (fst (lines ! i)) = Inr enc \<Longrightarrow>
   read_row fl rd root lines i enc (cur st) = (True, d) \<Longrightarrow>
   size_check (FLAGS_check_size fl) d (st\<lparr>cur := d\<rparr>) = Inl e \<Longrightarrow>
   payload_loop fl rd root lines i st = Inl e"
  by (subst payload_loop.simps) simp

lemma payload_loop_write:
  "i < length lines \<Longrightarrow> guess_enc fl (fst (lines ! i)) = Inr enc \<Longrightarrow>
   read_row fl rd root lines i enc (cur st) = (True, d) \<Longrightarrow>
   size_check (FLAGS_check_size fl) d (st\<lparr>cur := d\<rparr>) = Inr st1 \<Longrightarrow>
   payload_loop fl rd root lines i st =
     payload_loop fl rd root lines (Suc i) (put_commit (key_str i (fst (lines ! i))) d st1)"
  by (subst payload_loop.simps) simp

lemma payload_loop_rule:
  assumes run: "payload_loop fl rd root lines i st = Inr st'"
    and start: "Q i st"
    and sk: "\<And>j s enc d. j < length lines \<Longrightarrow> Q j s \<Longrightarrow>
        guess_enc fl (fst (lines ! j)) = Inr enc \<Longrightarrow>
        read_row fl rd root lines j enc (cur s) = (False, d) \<Longrightarrow> Q (Suc j) (s\<lparr>cur := d\<rparr>)"
    and wr: "\<And>j s enc d s1. j < length lines \<Longrightarrow> Q j s \<Longrightarrow>
        guess_enc fl (fst (lines ! j)) = Inr enc \<Longrightarrow>
        read_row fl rd root lines j enc (cur s) = (True, d) \<Longrightarrow>
        size_check (FLAGS_check_size fl) d (s\<lparr>cur := d\<rparr>) = Inr s1 \<Longrightarrow>
        Q (Suc j) (put_commit (key_str j (fst (lines ! j))) d s1)"
  shows "Q (max i (length lines)) st'"
  using run start
proof (induction "length lines - i" arbitrary: i st)
  case 0
  then have "\<not> i < length lines" by simp
  with "0.prems" show ?case by (simp add: payload_loop_done max_def)
next
  case (Suc n)
  then have lt: "i < length lines" by simp
  have m: "max (Suc i) (length lines) = max i (length lines)" using lt by simp
  have n: "n = length lines - Suc i" using Suc.hyps(2) by simp
  show ?case
  proof (cases "guess_enc fl (fst (lines ! i))")
    case (Inl e)
    with lt Suc.prems(1) show ?thesis by (simp add: payload_loop_guess_fail)
  next
    case (Inr enc)
    obtain status d where r: "read_row fl rd root lines i enc (cur st) = (status, d)"
      by (cases "read_row fl rd root lines i enc (cur st)")
    show ?thesis
    proof (cases status)
      case False
      with r have r': "read_row fl rd root lines i enc (cur st) = (False, d)" by simp
      have "payload_loop fl rd root lines (Suc i) (st\<lparr>cur := d\<rparr>) = Inr st'"
        using payload_loop_skip [where rd = rd and root = root, OF lt Inr r'] Suc.prems(1) by simp
      moreover have "Q (Suc i) (st\<lparr>cur := d\<rparr>)" by (rule sk [OF lt Suc.prems(2) Inr r'])
      ultimately have "Q (max (Suc i) (length lines)) st'" by (rule Suc.hyps(1) [OF n])
      then show ?thesis by (simp only: m)
    next
      case True
      with r have r': "read_row fl rd root lines i enc (cur st) = (True, d)" by simp
      show ?thesis
      proof (cases "size_check (FLAGS_check_size fl) d (st\<lparr>cur := d\<rparr>)")
        case (Inl e)
        with payload_loop_check_fail [where rd = rd and root = root, OF lt Inr r' Inl] Suc.prems(1) show ?thesis by simp
      next
        case c: (Inr s1)
        have "payload_loop fl rd root lines (Suc i) (put_commit (key_str i (fst (lines ! i))) d s1) = Inr st'"
          using payload_loop_write [where rd = rd and root = root, OF lt Inr r' c] Suc.prems(1) by simp
        moreover have "Q (Suc i) (put_commit (key_str i (fst (lines ! i))) d s1)"
          by (rule wr [OF lt Suc.prems(2) Inr r' c])
        ultimately have "Q (max (Suc i) (length lines)) st'" by (rule Suc.hyps(1) [OF n])
        then show ?thesis by (simp only: m)
      qed
    qed
  qed
qed

section \<open>Steps shared by the two loops\<close>

lemma size_check_Inr:
  "size_check chk d st = Inr st1 \<Longrightarrow>
   commits st1 = commits st \<and> txn st1 = txn st \<and> count st1 = count st \<and> cur st1 = cur st"
  by (auto simp: size_check_def split: if_splits)

lemma size_check_puts: "size_check chk d st = Inr st1 \<Longrightarrow> puts st1 = puts st"
  by (auto simp: size_check_def puts_def split: if_splits)

lemma size_check_batch_inv:
  "size_check chk d st = Inr st1 \<Longrightarrow> batch_inv st1 = batch_inv st"
  by (auto simp: size_check_def batch_inv_def split: if_splits)

lemma puts_cur_update: "puts (st\<lparr>cur := d\<rparr>) = puts st"
  by (simp add: puts_def)

lemma batch_inv_cur_update: "batch_inv (st\<lparr>cur := d\<rparr>) = batch_inv st"
  by (simp add: batch_inv_def)

lemma puts_put_commit: "puts (put_commit k d st) = puts st @ [(k, d)]"
  by (simp add: puts_def put_commit_def Let_def)

lemma count_put_commit: "count (put_commit k d st) = Suc (count st)"
  by (simp add: put_commit_def Let_def)

lemma cur_put_commit: "cur (put_commit k d st) = cur st"
  by (simp add: put_commit_def Let_def)

lemma batch_inv_put_commit:
  assumes "batch_inv st"
  shows "batch_inv (put_commit k d st)"
proof (cases "Suc (count st) mod 1000 = 0")
  case True
  then have m: "count st mod 1000 = 999"
    by (simp add: mod_Suc split: if_splits)
  from True have dv: "Suc (count st) div 1000 = Suc (count st div 1000)"
    by (simp add: div_Suc m)
  have "replicate (count st div 1000) (1000::nat) @ [1000] =
        replicate (Suc (count st div 1000)) 1000"
    by (simp add: replicate_append_same)
  with assms True m dv show ?thesis
    by (simp add: batch_inv_def put_commit_def Let_def)
next
  case False
  then have m: "Suc (count st) mod 1000 = Suc (count st mod 1000)"
    by (simp add: mod_Suc split: if_splits)
  from False have dv: "Suc (count st) div 1000 = count st div 1000"
    by (simp add: div_Suc)
  with assms False m show ?thesis
    by (simp add: batch_inv_def put_commit_def Let_def)
qed

lemma batch_inv_new_pass: "batch_inv new_pass"
  by (simp add: batch_inv_def new_pass_def)

lemma puts_new_pass: "puts new_pass = []"
  by (simp add: puts_def new_pass_def)

lemma entries_last_batch: "batch_inv st \<Longrightarrow> entries (last_batch st) = puts st"
  by (auto simp: entries_def last_batch_def puts_def batch_inv_def)

lemma count_last_batch: "count (last_batch st) = count st"
  by (simp add: last_batch_def)

lemma txn_last_batch: "batch_inv st \<Longrightarrow> txn (last_batch st) = []"
  by (auto simp: last_batch_def batch_inv_def)

lemma commit_sizes_last_batch:
  "batch_inv st \<Longrightarrow>
   map length (commits (last_batch st)) =
     replicate (count st div 1000) 1000 @
     (if count st mod 1000 = 0 then [] else [count st mod 1000])"
  by (auto simp: last_batch_def batch_inv_def)

section \<open>The label loop, one iteration at a time\<close>

lemma label_loop_done:
  "\<not> i < length lines \<Longrightarrow> label_loop fl lines labels i st = Inr st"
  by (subst label_loop.simps) simp

lemma label_loop_out_of_range:
  "i < length lines \<Longrightarrow> \<not> i < length labels \<Longrightarrow>
   label_loop fl lines labels i st = Inl VectorOutOfRange"
  by (subst label_loop.simps) simp

lemma label_loop_check_fail:
  "i < length lines \<Longrightarrow> i < length labels \<Longrightarrow>
   size_check (FLAGS_check_size fl) (label_datum (labels ! i) (cur st))
     (st\<lparr>cur := label_datum (labels ! i) (cur st)\<rparr>) = Inl e \<Longrightarrow>
   label_loop fl lines labels i st = Inl e"
  by (subst label_loop.simps) (simp add: Let_def)

lemma label_loop_write:
  "i < length lines \<Longrightarrow> i < length labels \<Longrightarrow>
   size_check (FLAGS_check_size fl) (label_datum (labels ! i) (cur st))
     (st\<lparr>cur := label_datum (labels ! i) (cur st)\<rparr>) = Inr st1 \<Longrightarrow>
   label_loop fl lines labels i st =
     label_loop fl lines labels (Suc i)
       (put_commit (key_str i (fst (lines ! i))) (label_datum (labels ! i) (cur st)) st1)"
  by (subst label_loop.simps) (simp add: Let_def)

lemma label_loop_rule:
  assumes run: "label_loop fl lines labels i st = Inr st'"
    and start: "Q i st"
    and wr: "\<And>j s s1. j < length lines \<Longrightarrow> j < length labels \<Longrightarrow> Q j s \<Longrightarrow>
        size_check (FLAGS_check_size fl) (label_datum (labels ! j) (cur s))
          (s\<lparr>cur := label_datum (labels ! j) (cur s)\<rparr>) = Inr s1 \<Longrightarrow>
        Q (Suc j) (put_commit (key_str j (fst (lines ! j))) (label_datum (labels ! j) (cur s)) s1)"
  shows "Q (max i (length lines)) st'"
  using run start
proof (induction "length lines - i" arbitrary: i st)
  case 0
  then have "\<not> i < length lines" by simp
  with "0.prems" show ?case by (simp add: label_loop_done max_def)
next
  case (Suc n)
  then have lt: "i < length lines" by simp
  have m: "max (Suc i) (length lines) = max i (length lines)" using lt by simp
  have n: "n = length lines - Suc i" using Suc.hyps(2) by simp
  show ?case
  proof (cases "i < length labels")
    case False
    with lt Suc.prems(1) show ?thesis by (simp add: label_loop_out_of_range)
  next
    case True
    let ?d = "label_datum (labels ! i) (cur st)"
    show ?thesis
    proof (cases "size_check (FLAGS_check_size fl) ?d (st\<lparr>cur := ?d\<rparr>)")
      case (Inl e)
      with label_loop_check_fail [OF lt True Inl] Suc.prems(1) show ?thesis by simp
    next
      case (Inr s1)
      have "label_loop fl lines labels (Suc i) (put_commit (key_str i (fst (lines ! i))) ?d s1)
              = Inr st'"
        using label_loop_write [OF lt True Inr] Suc.prems(1) by simp
      moreover have "Q (Suc i) (put_commit (key_str i (fst (lines ! i))) ?d s1)"
        by (rule wr [OF lt True Suc.prems(2) Inr])
      ultimately have "Q (max (Suc i) (length lines)) st'" by (rule Suc.hyps(1) [OF n])
      then show ?thesis by (simp only: m)
    qed
  qed
qed

section \<open>Invariants of the payload loop\<close>

lemma payload_loop_batch_inv:
  assumes "payload_loop fl rd root lines i st = Inr st'" and "batch_inv st"
  shows "batch_inv st'"
proof -
  have "(\<lambda>j s. batch_inv s) (max i (length lines)) st'"
    using assms(1)
  proof (rule payload_loop_rule)
    show "batch_inv st" by (rule assms(2))
  next
    fix j s enc d
    assume "batch_inv s"
    then show "batch_inv (s\<lparr>cur := d\<rparr>)" by (simp add: batch_inv_cur_update)
  next
    fix j s enc d s1
    assume "batch_inv s" and "size_check (FLAGS_check_size fl) d (s\<lparr>cur := d\<rparr>) = Inr s1"
    then have "batch_inv s1"
      using size_check_batch_inv [of "FLAGS_check_size fl" d "s\<lparr>cur := d\<rparr>" s1]
      by (simp add: batch_inv_cur_update)
    then show "batch_inv (put_commit (key_str j (fst (lines ! j))) d s1)"
      by (rule batch_inv_put_commit)
  qed
  then show ?thesis .
qed

lemma payload_loop_count:
  assumes "payload_loop fl rd root lines i st = Inr st'" and "count st = length (puts st)"
  shows "count st' = length (puts st')"
proof -
  have "(\<lambda>j s. count s = length (puts s)) (max i (length lines)) st'"
    using assms(1)
  proof (rule payload_loop_rule)
    show "count st = length (puts st)" by (rule assms(2))
  next
    fix j s enc d
    assume "count s = length (puts s)"
    then show "count (s\<lparr>cur := d\<rparr>) = length (puts (s\<lparr>cur := d\<rparr>))"
      by (simp add: puts_cur_update)
  next
    fix j s enc d s1
    assume c: "count s = length (puts s)"
      and sc: "size_check (FLAGS_check_size fl) d (s\<lparr>cur := d\<rparr>) = Inr s1"
    from sc have "count s1 = count s" "puts s1 = puts s"
      using size_check_Inr [OF sc] size_check_puts [OF sc] by (simp_all add: puts_cur_update)
    with c show "count (put_commit (key_str j (fst (lines ! j))) d s1) =
        length (puts (put_commit (key_str j (fst (lines ! j))) d s1))"
      by (simp add: count_put_commit puts_put_commit)
  qed
  then show ?thesis .
qed

lemma subseq_snoc_right: "subseq js xs \<Longrightarrow> subseq js (xs @ [x])"
  by (metis append_Nil2 list_emb_append_mono list_emb_Nil)

lemma subseq_snoc_both: "subseq js xs \<Longrightarrow> subseq (js @ [x]) (xs @ [x])"
  by (simp add: list_emb_append_mono)

lemma payload_loop_keys:
  assumes "payload_loop fl rd root lines i st = Inr st'"
  shows "\<exists>js. subseq js [i..<length lines] \<and>
           map fst (puts st') =
             map fst (puts st) @ map (\<lambda>j. key_str j (fst (lines ! j))) js"
proof -
  let ?key = "\<lambda>j. key_str j (fst (lines ! j))"
  let ?Q = "\<lambda>j s. i \<le> j \<and> (\<exists>js. subseq js [i..<j] \<and>
                map fst (puts s) = map fst (puts st) @ map ?key js)"
  have "?Q (max i (length lines)) st'"
    using assms
  proof (rule payload_loop_rule)
    show "?Q i st" by simp
  next
    fix j s enc d
    assume q: "?Q j s"
    then obtain js where js: "subseq js [i..<j]"
      "map fst (puts s) = map fst (puts st) @ map ?key js" by blast
    from q have "[i..<Suc j] = [i..<j] @ [j]" by simp
    with js(1) have "subseq js [i..<Suc j]" by (simp add: subseq_snoc_right)
    with js(2) q show "?Q (Suc j) (s\<lparr>cur := d\<rparr>)"
      by (auto simp: puts_cur_update)
  next
    fix j s enc d s1
    assume q: "?Q j s"
      and sc: "size_check (FLAGS_check_size fl) d (s\<lparr>cur := d\<rparr>) = Inr s1"
    then obtain js where js: "subseq js [i..<j]"
      "map fst (puts s) = map fst (puts st) @ map ?key js" by blast
    from q have "[i..<Suc j] = [i..<j] @ [j]" by simp
    with js(1) have "subseq (js @ [j]) [i..<Suc j]" by (simp add: subseq_snoc_both)
    moreover have "puts s1 = puts s"
      using size_check_puts [OF sc] by (simp add: puts_cur_update)
    then have "map fst (puts (put_commit (?key j) d s1)) =
        map fst (puts st) @ map ?key (js @ [j])"
      using js(2) by (simp add: puts_put_commit)
    ultimately show "?Q (Suc j) (put_commit (?key j) d s1)"
      using q by (intro conjI exI [of _ "js @ [j]"]) simp_all
  qed
  then obtain js where "subseq js [i..<max i (length lines)]"
    "map fst (puts st') = map fst (puts st) @ map ?key js" by blast
  moreover have "[i..<max i (length lines)] = [i..<length lines]"
    by (simp add: max_def)
  ultimately show ?thesis by auto
qed

lemma payload_loop_labels:
  assumes run: "payload_loop fl (ReadImageToDatum encode) root lines i st = Inr st'"
    and zero: "\<And>x. x \<in> set lines \<Longrightarrow> snd x = 0"
    and start: "\<And>kd. kd \<in> set (puts st) \<Longrightarrow> label (snd kd) = 0"
  shows "kd \<in> set (puts st') \<Longrightarrow> label (snd kd) = 0"
proof -
  let ?Q = "\<lambda>j s. \<forall>kd \<in> set (puts s). label (snd kd) = 0"
  have "?Q (max i (length lines)) st'"
    using run
  proof (rule payload_loop_rule)
    show "?Q i st" using start by blast
  next
    fix j s enc d
    assume "?Q j s"
    then show "?Q (Suc j) (s\<lparr>cur := d\<rparr>)" by (simp add: puts_cur_update)
  next
    fix j s enc d s1
    assume lt: "j < length lines" and q: "?Q j s"
      and r: "read_row fl (ReadImageToDatum encode) root lines j enc (cur s) = (True, d)"
      and sc: "size_check (FLAGS_check_size fl) d (s\<lparr>cur := d\<rparr>) = Inr s1"
    from lt have "snd (lines ! j) = 0" by (simp add: zero)
    with r have "label d = 0"
      by (auto simp: ReadImageToDatum_def split: option.splits)
    moreover have "puts s1 = puts s"
      using size_check_puts [OF sc] by (simp add: puts_cur_update)
    ultimately show "?Q (Suc j) (put_commit (key_str j (fst (lines ! j))) d s1)"
      using q by (simp add: puts_put_commit)
  qed
  then show "kd \<in> set (puts st') \<Longrightarrow> label (snd kd) = 0" by blast
qed

section \<open>Invariants of the label loop\<close>

lemma label_datum_fields:
  "channels (label_datum p d) = 2" "height (label_datum p d) = 1"
  "width (label_datum p d) = 1" "label (label_datum p d) = 0"
  "data (label_datum p d) = take 2 (label_data p)"
  "encoded (label_datum p d) = encoded d"
  by (simp_all add: label_datum_def set_data_def)

lemma length_label_data: "length (label_data p) = 8"
  by (simp add: label_data_def int_bytes_def)

lemma label_datum_cong: "encoded d = encoded d' \<Longrightarrow> label_datum p d = label_datum p d'"
  by (cases d, cases d') (simp add: label_datum_def set_data_def)

lemma size_check_label_datum:
  assumes "FLAGS_check_size fl \<and> data_size_initialized st \<longrightarrow> data_size st = 2"
  shows "\<exists>st1. size_check (FLAGS_check_size fl) (label_datum p c) (st\<lparr>cur := d\<rparr>) = Inr st1 \<and>
           (FLAGS_check_size fl \<and> data_size_initialized st1 \<longrightarrow> data_size st1 = 2)"
  using assms
  by (auto simp: size_check_def label_datum_fields length_label_data int32_def)

lemma put_commit_data_size:
  "data_size (put_commit k d st) = data_size st"
  "data_size_initialized (put_commit k d st) = data_size_initialized st"
  by (simp_all add: put_commit_def Let_def)

lemma label_loop_total:
  assumes "length lines \<le> length labels"
    and "FLAGS_check_size fl \<and> data_size_initialized st \<longrightarrow> data_size st = 2"
  shows "\<exists>st'. label_loop fl lines labels i st = Inr st'"
  using assms(2)
proof (induction "length lines - i" arbitrary: i st)
  case 0
  then have "\<not> i < length lines" by simp
  then show ?case by (simp add: label_loop_done)
next
  case (Suc n)
  then have lt: "i < length lines" by simp
  with assms(1) have lt': "i < length labels" by simp
  have n: "n = length lines - Suc i" using Suc.hyps(2) by simp
  let ?d = "label_datum (labels ! i) (cur st)"
  obtain st1 where s1: "size_check (FLAGS_check_size fl) ?d (st\<lparr>cur := ?d\<rparr>) = Inr st1"
    and d1: "FLAGS_check_size fl \<and> data_size_initialized st1 \<longrightarrow> data_size st1 = 2"
    using size_check_label_datum [OF Suc.prems] by blast
  let ?st2 = "put_commit (key_str i (fst (lines ! i))) ?d st1"
  have "FLAGS_check_size fl \<and> data_size_initialized ?st2 \<longrightarrow> data_size ?st2 = 2"
    using d1 by (simp add: put_commit_data_size)
  then have "\<exists>st'. label_loop fl lines labels (Suc i) ?st2 = Inr st'"
    by (rule Suc.hyps(1) [OF n])
  then show ?case by (simp add: label_loop_write [OF lt lt' s1])
qed

lemma label_loop_batch_inv:
  assumes "label_loop fl lines labels i st = Inr st'" and "batch_inv st"
  shows "batch_inv st'"
proof -
  have "(\<lambda>j s. batch_inv s) (max i (length lines)) st'"
    using assms(1)
  proof (rule label_loop_rule)
    show "batch_inv st" by (rule assms(2))
  next
    fix j and s :: pass_state and s1
    let ?d = "label_datum (labels ! j) (cur s)"
    assume "batch_inv s" and "size_check (FLAGS_check_size fl) ?d (s\<lparr>cur := ?d\<rparr>) = Inr s1"
    then have "batch_inv s1"
      using size_check_batch_inv [of "FLAGS_check_size fl" ?d "s\<lparr>cur := ?d\<rparr>" s1]
      by (simp add: batch_inv_cur_update)
    then show "batch_inv (put_commit (key_str j (fst (lines ! j))) ?d s1)"
      by (rule batch_inv_put_commit)
  qed
  then show ?thesis .
qed

lemma label_loop_puts:
  assumes "label_loop fl lines labels i st = Inr st'"
  shows "puts st' = puts st @
           map (\<lambda>j. (key_str j (fst (lines ! j)), label_datum (labels ! j) (cur st)))
             [i..<length lines] \<and>
         count st' = count st + (length lines - i)"
proof -
  let ?row = "\<lambda>j. (key_str j (fst (lines ! j)), label_datum (labels ! j) (cur st))"
  let ?Q = "\<lambda>j s. i \<le> j \<and> encoded (cur s) = encoded (cur st) \<and>
              puts s = puts st @ map ?row [i..<j] \<and> count s = count st + (j - i)"
  have "?Q (max i (length lines)) st'"
    using assms
  proof (rule label_loop_rule)
    show "?Q i st" by simp
  next
    fix j and s :: pass_state and s1
    let ?d = "label_datum (labels ! j) (cur s)"
    assume q: "?Q j s"
      and sc: "size_check (FLAGS_check_size fl) ?d (s\<lparr>cur := ?d\<rparr>) = Inr s1"
    from q have d: "?d = label_datum (labels ! j) (cur st)"
      by (intro label_datum_cong) simp
    from q have up: "[i..<Suc j] = [i..<j] @ [j]" by simp
    have s1: "puts s1 = puts s" "count s1 = count s" "cur s1 = ?d"
      using size_check_puts [OF sc] size_check_Inr [OF sc] by (simp_all add: puts_cur_update)
    have "encoded (cur (put_commit (key_str j (fst (lines ! j))) ?d s1)) = encoded (cur st)"
      using q s1(3) by (simp add: cur_put_commit label_datum_fields)
    moreover have "puts (put_commit (key_str j (fst (lines ! j))) ?d s1) =
        puts st @ map ?row [i..<Suc j]"
      using q s1(1) d by (simp only: puts_put_commit up) simp
    moreover have "count (put_commit (key_str j (fst (lines ! j))) ?d s1) =
        count st + (Suc j - i)"
    proof -
      from q have "i \<le> j" "count s = count st + (j - i)" by simp_all
      with s1(2) show ?thesis by (simp add: count_put_commit Suc_diff_le)
    qed
    ultimately show "?Q (Suc j) (put_commit (key_str j (fst (lines ! j))) ?d s1)"
      using q by simp
  qed
  moreover have "[i..<max i (length lines)] = [i..<length lines]"
    "max i (length lines) - i = length lines - i"
    by (simp_all add: max_def)
  ultimately show ?thesis by simp
qed

section \<open>The two passes\<close>

lemma payload_pass_Inr:
  assumes "payload_pass fl rd root lines = Inr st"
  obtains st0 where "payload_loop fl rd root lines 0 new_pass = Inr st0"
    and "st = last_batch st0" and "batch_inv st0" and "entries st = puts st0"
    and "count st = length (entries st)"
proof -
  from assms obtain st0 where l: "payload_loop fl rd root lines 0 new_pass = Inr st0"
    and s: "st = last_batch st0"
    by (auto simp: payload_pass_def split: sum.splits)
  have b: "batch_inv st0" by (rule payload_loop_batch_inv [OF l batch_inv_new_pass])
  have "count st0 = length (puts st0)"
    by (rule payload_loop_count [OF l]) (simp add: new_pass_def puts_def)
  with s b have "entries st = puts st0" "count st = length (entries st)"
    by (simp_all add: entries_last_batch count_last_batch)
  with l s b show thesis by (rule that)
qed

lemma label_pass_Inr:
  assumes "label_pass fl lines labels = Inr st"
  obtains st0 where "label_loop fl lines labels 0 new_pass = Inr st0"
    and "st = last_batch st0" and "batch_inv st0" and "entries st = puts st0"
    and "count st = length lines"
    and "entries st =
          map (\<lambda>j. (key_str j (fst (lines ! j)), label_datum (labels ! j) Datum))
            [0..<length lines]"
proof -
  from assms obtain st0 where l: "label_loop fl lines labels 0 new_pass = Inr st0"
    and s: "st = last_batch st0"
    by (auto simp: label_pass_def split: sum.splits)
  have b: "batch_inv st0" by (rule label_loop_batch_inv [OF l batch_inv_new_pass])
  have p: "puts st0 =
      map (\<lambda>j. (key_str j (fst (lines ! j)), label_datum (labels ! j) Datum)) [0..<length lines]"
    and c: "count st0 = length lines"
    using label_loop_puts [OF l] by (simp_all add: puts_new_pass) (simp_all add: new_pass_def)
  from s b have e: "entries st = puts st0" by (simp add: entries_last_batch)
  from s c have n: "count st = length lines" by (simp add: count_last_batch)
  from e p have e': "entries st =
      map (\<lambda>j. (key_str j (fst (lines ! j)), label_datum (labels ! j) Datum)) [0..<length lines]"
    by simp
  show thesis by (rule that [OF l s b e n e'])
qed

lemma label_pass_total:
  assumes "length lines \<le> length labels"
  shows "\<exists>st. label_pass fl lines labels = Inr st"
proof -
  have "\<exists>st'. label_loop fl lines labels 0 new_pass = Inr st'"
    by (rule label_loop_total [OF assms]) (simp add: new_pass_def)
  then show ?thesis by (auto simp: label_pass_def)
qed

section \<open>The rows the payload loop writes\<close>

lemma payload_loop_written:
  assumes run: "payload_loop fl rd root lines i st = Inr st'"
    and sl: "stateless fl rd root lines"
  shows "map fst (puts st') =
           map fst (puts st) @
           map (\<lambda>j. key_str j (fst (lines ! j))) (filter (row_ok fl rd root lines) [i..<length lines])
         \<and> count st' = count st + length (filter (row_ok fl rd root lines) [i..<length lines])"
proof -
  let ?key = "\<lambda>j. key_str j (fst (lines ! j))"
  let ?ok = "row_ok fl rd root lines"
  let ?Q = "\<lambda>j s. i \<le> j \<and>
              map fst (puts s) = map fst (puts st) @ map ?key (filter ?ok [i..<j]) \<and>
              count s = count st + length (filter ?ok [i..<j])"
  have "?Q (max i (length lines)) st'"
    using run
  proof (rule payload_loop_rule)
    show "?Q i st" by simp
  next
    fix j s enc d
    assume q: "?Q j s" and g: "guess_enc fl (fst (lines ! j)) = Inr enc"
      and r: "read_row fl rd root lines j enc (cur s) = (False, d)"
    from sl have "fst (read_row fl rd root lines j enc Datum) =
        fst (read_row fl rd root lines j enc (cur s))"
      unfolding stateless_def by blast
    with r g have "\<not> ?ok j" by (simp add: row_ok_def)
    moreover from q have "[i..<Suc j] = [i..<j] @ [j]" by simp
    ultimately show "?Q (Suc j) (s\<lparr>cur := d\<rparr>)"
      using q by (simp add: puts_cur_update)
  next
    fix j s enc d s1
    assume q: "?Q j s" and g: "guess_enc fl (fst (lines ! j)) = Inr enc"
      and r: "read_row fl rd root lines j enc (cur s) = (True, d)"
      and sc: "size_check (FLAGS_check_size fl) d (s\<lparr>cur := d\<rparr>) = Inr s1"
    from sl have "fst (read_row fl rd root lines j enc Datum) =
        fst (read_row fl rd root lines j enc (cur s))"
      unfolding stateless_def by blast
    with r g have ok: "?ok j" by (simp add: row_ok_def)
    from q have up: "[i..<Suc j] = [i..<j] @ [j]" by simp
    have s1: "puts s1 = puts s" "count s1 = count s"
      using size_check_puts [OF sc] size_check_Inr [OF sc] by (simp_all add: puts_cur_update)
    show "?Q (Suc j) (put_commit (?key j) d s1)"
      using q ok s1 by (simp add: up puts_put_commit count_put_commit)
  qed
  moreover have "[i..<max i (length lines)] = [i..<length lines]"
    by (simp add: max_def)
  ultimately show ?thesis by simp
qed

section \<open>Runs of the payload loop that cannot fail\<close>

lemma payload_loop_total:
  assumes "\<not> FLAGS_check_size fl"
    and "\<And>j. j < length lines \<Longrightarrow> \<exists>enc. guess_enc fl (fst (lines ! j)) = Inr enc"
  shows "\<exists>st'. payload_loop fl rd root lines i st = Inr st'"
proof (induction "length lines - i" arbitrary: i st)
  case 0
  then have "\<not> i < length lines" by simp
  then show ?case by (simp add: payload_loop_done)
next
  case (Suc n)
  then have lt: "i < length lines" by simp
  have n: "n = length lines - Suc i" using Suc.hyps(2) by simp
  from assms(2) [OF lt] obtain enc where g: "guess_enc fl (fst (lines ! i)) = Inr enc" ..
  obtain status d where r: "read_row fl rd root lines i enc (cur st) = (status, d)"
    by (cases "read_row fl rd root lines i enc (cur st)")
  show ?case
  proof (cases status)
    case False
    with r have r': "read_row fl rd root lines i enc (cur st) = (False, d)" by simp
    show ?thesis
      using Suc.hyps(1) [OF n, of "st\<lparr>cur := d\<rparr>"]
      by (simp add: payload_loop_skip [where rd = rd and root = root, OF lt g r'])
  next
    case True
    with r have r': "read_row fl rd root lines i enc (cur st) = (True, d)" by simp
    have sc: "size_check (FLAGS_check_size fl) d (st\<lparr>cur := d\<rparr>) = Inr (st\<lparr>cur := d\<rparr>)"
      using assms(1) by (simp add: size_check_def)
    show ?thesis
      using Suc.hyps(1) [OF n, of "put_commit (key_str i (fst (lines ! i))) d (st\<lparr>cur := d\<rparr>)"]
      by (simp add: payload_loop_write [where rd = rd and root = root, OF lt g r' sc])
  qed
qed

lemma guess_enc_plain:
  "\<not> FLAGS_encoded fl \<or> FLAGS_encode_type fl \<noteq> [] \<Longrightarrow>
   guess_enc fl fn = Inr (FLAGS_encode_type fl)"
  by (auto simp: guess_enc_def)

lemma guess_enc_dot:
  "CHR ''.'' \<in> set fn \<Longrightarrow> \<exists>enc. guess_enc fl fn = Inr enc"
  by (auto simp: guess_enc_def substr_def rfind_def Let_def)

lemma guess_enc_no_dot:
  "FLAGS_encoded fl \<Longrightarrow> FLAGS_encode_type fl = [] \<Longrightarrow> CHR ''.'' \<notin> set fn \<Longrightarrow>
   guess_enc fl fn = Inl SubstrOutOfRange"
  by (simp add: guess_enc_def substr_def rfind_def)

section \<open>The run as a whole\<close>

lemma shuffle_perm:
  assumes "sort perm = [0..<length xs]"
  shows "length perm = length xs" and "set perm = {0..<length xs}"
proof -
  have "length (sort perm) = length xs" by (simp add: assms)
  then show "length perm = length xs" by simp
  have "set (sort perm) = {0..<length xs}" by (simp add: assms)
  then show "set perm = {0..<length xs}" by simp
qed

lemma length_shuffle: "length (shuffle perm xs) = length xs"
  by (simp add: shuffle_def shuffle_perm)

lemma set_shuffle: "set (shuffle perm xs) \<subseteq> set xs"
proof (cases "sort perm = [0..<length xs]")
  case True
  then have "set perm = {0..<length xs}" by (rule shuffle_perm)
  then show ?thesis by (auto simp: shuffle_def True)
next
  case False
  then show ?thesis by (simp add: shuffle_def)
qed

lemma length_write_order: "length (write_order fl perm infile) = length infile"
  by (simp add: write_order_def maybe_shuffle_def parse_manifest_def length_shuffle)

lemma set_write_order:
  "set (write_order fl perm infile) \<subseteq> (\<lambda>l. fst (parse_line l)) ` set infile"
  using set_shuffle [of perm "map (\<lambda>l. fst (parse_line l)) infile"]
  by (auto simp: write_order_def maybe_shuffle_def parse_manifest_def)

lemma parse_line_label_zero: "snd (fst (parse_line l)) = 0"
  by (simp add: parse_line_def Let_def split: prod.splits)

lemma write_order_label_zero: "x \<in> set (write_order fl perm infile) \<Longrightarrow> snd x = 0"
  using set_write_order [of fl perm infile] parse_line_label_zero by auto

lemma convert_eq:
  "convert fl root infile perm rd =
     (if infile = [] then Inl VectorOutOfRange
      else case payload_pass fl rd root (write_order fl perm infile) of
             Inl e \<Rightarrow> Inl e
           | Inr p \<Rightarrow>
               (case label_pass fl (write_order fl perm infile) (snd (parse_manifest infile)) of
                  Inl e \<Rightarrow> Inl e
                | Inr l \<Rightarrow> Inr (p, l)))"
  unfolding convert_def write_order_def parse_manifest_def Let_def
  by (simp split: sum.splits)

lemma label_pass_write_order:
  "\<exists>l. label_pass fl (write_order fl perm infile) (snd (parse_manifest infile)) = Inr l"
  by (rule label_pass_total) (simp add: length_write_order parse_manifest_def)

lemma convert_Inr:
  "convert fl root infile perm rd = Inr (p, l) \<longleftrightarrow>
     infile \<noteq> [] \<and> payload_pass fl rd root (write_order fl perm infile) = Inr p \<and>
     label_pass fl (write_order fl perm infile) (snd (parse_manifest infile)) = Inr l"
  by (auto simp: convert_eq split: sum.splits)

lemma convert_payload_Inl:
  "infile \<noteq> [] \<Longrightarrow> payload_pass fl rd root (write_order fl perm infile) = Inl e \<Longrightarrow>
   convert fl root infile perm rd = Inl e"
  by (simp add: convert_eq)

lemma convert_payload_Inr:
  assumes "infile \<noteq> []" and "payload_pass fl rd root (write_order fl perm infile) = Inr p"
  shows "\<exists>l. convert fl root infile perm rd = Inr (p, l)"
proof -
  obtain l where "label_pass fl (write_order fl perm infile) (snd (parse_manifest infile)) = Inr l"
    using label_pass_write_order by blast
  with assms show ?thesis by (auto simp: convert_Inr)
qed

lemma payload_pass_total:
  assumes "\<not> FLAGS_check_size fl"
    and "\<And>j. j < length lines \<Longrightarrow> \<exists>enc. guess_enc fl (fst (lines ! j)) = Inr enc"
  shows "\<exists>st. payload_pass fl rd root lines = Inr st"
proof -
  have "\<exists>st'. payload_loop fl rd root lines 0 new_pass = Inr st'"
    using assms by (rule payload_loop_total)
  then show ?thesis by (auto simp: payload_pass_def)
qed

lemma payload_pass_written:
  assumes run: "payload_pass fl rd root lines = Inr st"
    and sl: "stateless fl rd root lines"
  shows "map fst (entries st) =
           map (\<lambda>j. key_str j (fst (lines ! j))) (filter (row_ok fl rd root lines) [0..<length lines])"
    and "count st = length (filter (row_ok fl rd root lines) [0..<length lines])"
proof -
  from run obtain st0 where l: "payload_loop fl rd root lines 0 new_pass = Inr st0"
    and s: "st = last_batch st0" and e: "entries st = puts st0"
    by (rule payload_pass_Inr)
  from payload_loop_written [OF l sl]
  have w: "map fst (puts st0) =
      map (\<lambda>j. key_str j (fst (lines ! j))) (filter (row_ok fl rd root lines) [0..<length lines])"
    and c: "count st0 = length (filter (row_ok fl rd root lines) [0..<length lines])"
    by (simp_all add: puts_new_pass) (simp add: new_pass_def)
  from w e show "map fst (entries st) =
      map (\<lambda>j. key_str j (fst (lines ! j))) (filter (row_ok fl rd root lines) [0..<length lines])"
    by simp
  from c s show "count st = length (filter (row_ok fl rd root lines) [0..<length lines])"
    by (simp add: count_last_batch)
qed

lemma payload_pass_keys:
  assumes "payload_pass fl rd root lines = Inr st"
  shows "\<exists>js. subseq js [0..<length lines] \<and>
           map fst (entries st) = map (\<lambda>j. key_str j (fst (lines ! j))) js"
proof -
  from assms obtain st0 where l: "payload_loop fl rd root lines 0 new_pass = Inr st0"
    and e: "entries st = puts st0"
    by (rule payload_pass_Inr)
  from payload_loop_keys [OF l] e show ?thesis by (simp add: puts_new_pass)
qed

section \<open>Memoryless readers\<close>

lemma memoryless_stateless:
  "memoryless fl rd root lines \<Longrightarrow> stateless fl rd root lines"
  by (simp add: memoryless_def stateless_def)

lemma memoryless_read:
  assumes m: "memoryless fl rd root lines"
    and g: "guess_enc fl (fst (lines ! j)) = Inr enc"
    and r: "read_row fl rd root lines j enc c = (status, d)"
  shows "row_ok fl rd root lines j = status"
    and "status \<Longrightarrow> row_rec fl rd root lines j = d"
proof -
  from m have s: "fst (read_row fl rd root lines j enc Datum) =
      fst (read_row fl rd root lines j enc c)"
    unfolding memoryless_def by blast
  with r g show "row_ok fl rd root lines j = status" by (simp add: row_ok_def)
  assume status
  with r have "fst (read_row fl rd root lines j enc c)" by simp
  with m have "snd (read_row fl rd root lines j enc c) =
      snd (read_row fl rd root lines j enc Datum)"
    unfolding memoryless_def by blast
  with r g show "row_rec fl rd root lines j = d" by (simp add: row_rec_def enc_of_def)
qed

lemma written_rows_step:
  "i < length lines \<Longrightarrow>
   written_rows fl rd root lines i =
     (if row_ok fl rd root lines i then i # written_rows fl rd root lines (Suc i)
      else written_rows fl rd root lines (Suc i))"
  by (simp add: written_rows_def upt_conv_Cons)

lemma written_rows_done: "\<not> i < length lines \<Longrightarrow> written_rows fl rd root lines i = []"
  by (simp add: written_rows_def)

lemma key_str_entry:
  "(key_str j (fst (lines ! j)), row_rec fl rd root lines j) = row_entry fl rd root lines j"
  by (simp add: row_entry_def key_str_def)

text \<open>What a completed loop has put, for a memoryless reader.\<close>

lemma payload_loop_records:
  assumes m: "memoryless fl rd root lines"
  shows "payload_loop fl rd root lines i st = Inr st' \<Longrightarrow>
         puts st' = puts st @ map (row_entry fl rd root lines) (written_rows fl rd root lines i)"
proof (induction "length lines - i" arbitrary: i st)
  case 0
  then have "\<not> i < length lines" by simp
  with "0.prems" show ?case by (simp add: payload_loop_done written_rows_done)
next
  case (Suc n)
  then have lt: "i < length lines" by simp
  have n: "n = length lines - Suc i" using Suc.hyps(2) by simp
  show ?case
  proof (cases "guess_enc fl (fst (lines ! i))")
    case (Inl e)
    with lt Suc.prems show ?thesis by (simp add: payload_loop_guess_fail)
  next
    case (Inr enc)
    obtain status d where r: "read_row fl rd root lines i enc (cur st) = (status, d)"
      by (cases "read_row fl rd root lines i enc (cur st)")
    note ok = memoryless_read [OF m Inr r]
    show ?thesis
    proof (cases status)
      case False
      with r have r': "read_row fl rd root lines i enc (cur st) = (False, d)" by simp
      have "payload_loop fl rd root lines (Suc i) (st\<lparr>cur := d\<rparr>) = Inr st'"
        using payload_loop_skip [where rd = rd and root = root, OF lt Inr r'] Suc.prems by simp
      from Suc.hyps(1) [OF n this] ok(1) False lt show ?thesis
        by (simp add: puts_cur_update written_rows_step)
    next
      case True
      with r have r': "read_row fl rd root lines i enc (cur st) = (True, d)" by simp
      show ?thesis
      proof (cases "size_check (FLAGS_check_size fl) d (st\<lparr>cur := d\<rparr>)")
        case (Inl e)
        with payload_loop_check_fail [where rd = rd and root = root, OF lt Inr r' Inl] Suc.prems
        show ?thesis by simp
      next
        case c: (Inr s1)
        have "payload_loop fl rd root lines (Suc i)
                (put_commit (key_str i (fst (lines ! i))) d s1) = Inr st'"
          using payload_loop_write [where rd = rd and root = root, OF lt Inr r' c] Suc.prems
          by simp
        from Suc.hyps(1) [OF n this] ok True lt size_check_puts [OF c] show ?thesis
          by (simp add: puts_cur_update puts_put_commit written_rows_step key_str_entry [symmetric])
      qed
    qed
  qed
qed

section \<open>The size check along a pass\<close>

lemma size_check_first:
  "chk \<Longrightarrow> \<not> data_size_initialized st \<Longrightarrow>
   size_check chk d st = Inr (st\<lparr>data_size := shape_size d, data_size_initialized := True\<rparr>)"
  by (simp add: size_check_def shape_size_def)

lemma size_check_match:
  "chk \<Longrightarrow> data_size_initialized st \<Longrightarrow> data_len d = data_size st \<Longrightarrow>
   size_check chk d st = Inr st"
  by (simp add: size_check_def data_len_def)

lemma size_check_mismatch:
  "chk \<Longrightarrow> data_size_initialized st \<Longrightarrow> data_len d \<noteq> data_size st \<Longrightarrow>
   size_check chk d st = Inl CheckEqFailed"
  by (simp add: size_check_def data_len_def)

lemma payload_loop_checked:
  assumes m: "memoryless fl rd root lines"
    and g: "\<And>j. j < length lines \<Longrightarrow> \<exists>enc. guess_enc fl (fst (lines ! j)) = Inr enc"
    and chk: "FLAGS_check_size fl"
  shows "data_size_initialized st \<Longrightarrow>
    (if \<forall>j \<in> set (written_rows fl rd root lines i).
          data_len (row_rec fl rd root lines j) = data_size st
     then \<exists>st'. payload_loop fl rd root lines i st = Inr st' \<and>
               data_size st' = data_size st \<and> data_size_initialized st'
     else payload_loop fl rd root lines i st = Inl CheckEqFailed)"
proof (induction "length lines - i" arbitrary: i st)
  case 0
  then have "\<not> i < length lines" by simp
  with "0.prems" show ?case by (simp add: payload_loop_done written_rows_done)
next
  case (Suc n)
  then have lt: "i < length lines" by simp
  have n: "n = length lines - Suc i" using Suc.hyps(2) by simp
  from g [OF lt] obtain enc where ge: "guess_enc fl (fst (lines ! i)) = Inr enc" ..
  obtain status d where r: "read_row fl rd root lines i enc (cur st) = (status, d)"
    by (cases "read_row fl rd root lines i enc (cur st)")
  note ok = memoryless_read [OF m ge r]
  show ?case
  proof (cases status)
    case False
    with r have r': "read_row fl rd root lines i enc (cur st) = (False, d)" by simp
    have st: "data_size_initialized (st\<lparr>cur := d\<rparr>)" using Suc.prems by simp
    have step: "payload_loop fl rd root lines i st =
        payload_loop fl rd root lines (Suc i) (st\<lparr>cur := d\<rparr>)"
      by (rule payload_loop_skip [where rd = rd and root = root, OF lt ge r'])
    have wr: "written_rows fl rd root lines i = written_rows fl rd root lines (Suc i)"
      using ok(1) False lt by (simp add: written_rows_step)
    have ds: "data_size (st\<lparr>cur := d\<rparr>) = data_size st" by simp
    show ?thesis
      unfolding step wr using Suc.hyps(1) [OF n st] unfolding ds .
  next
    case True
    with r have r': "read_row fl rd root lines i enc (cur st) = (True, d)" by simp
    from ok True have rec: "row_rec fl rd root lines i = d" and rok: "row_ok fl rd root lines i"
      by simp_all
    show ?thesis
    proof (cases "data_len d = data_size st")
      case False
      then have "size_check (FLAGS_check_size fl) d (st\<lparr>cur := d\<rparr>) = Inl CheckEqFailed"
        using chk Suc.prems by (simp add: size_check_mismatch)
      then have "payload_loop fl rd root lines i st = Inl CheckEqFailed"
        by (rule payload_loop_check_fail [where rd = rd and root = root, OF lt ge r'])
      with False rec rok lt show ?thesis by (simp add: written_rows_step)
    next
      case eq: True
      let ?s2 = "put_commit (key_str i (fst (lines ! i))) d (st\<lparr>cur := d\<rparr>)"
      have "size_check (FLAGS_check_size fl) d (st\<lparr>cur := d\<rparr>) = Inr (st\<lparr>cur := d\<rparr>)"
        using chk Suc.prems eq by (simp add: size_check_match)
      then have step: "payload_loop fl rd root lines i st = payload_loop fl rd root lines (Suc i) ?s2"
        by (rule payload_loop_write [where rd = rd and root = root, OF lt ge r'])
      have st: "data_size_initialized ?s2" "data_size ?s2 = data_size st"
        using Suc.prems by (simp_all add: put_commit_data_size)
      from Suc.hyps(1) [OF n st(1), unfolded st(2)] eq rec rok lt show ?thesis
        by (simp add: step written_rows_step split: if_splits)
    qed
  qed
qed

lemma payload_loop_first:
  assumes m: "memoryless fl rd root lines"
    and g: "\<And>j. j < length lines \<Longrightarrow> \<exists>enc. guess_enc fl (fst (lines ! j)) = Inr enc"
    and chk: "FLAGS_check_size fl"
  shows "\<not> data_size_initialized st \<Longrightarrow>
    (case written_rows fl rd root lines i of
       [] \<Rightarrow> \<exists>st'. payload_loop fl rd root lines i st = Inr st' \<and> \<not> data_size_initialized st'
     | f # rest \<Rightarrow>
         if \<forall>j \<in> set rest. data_len (row_rec fl rd root lines j) =
                             shape_size (row_rec fl rd root lines f)
         then \<exists>st'. payload_loop fl rd root lines i st = Inr st' \<and>
                   data_size st' = shape_size (row_rec fl rd root lines f) \<and>
                   data_size_initialized st'
         else payload_loop fl rd root lines i st = Inl CheckEqFailed)"
proof (induction "length lines - i" arbitrary: i st)
  case 0
  then have "\<not> i < length lines" by simp
  with "0.prems" show ?case by (simp add: payload_loop_done written_rows_done)
next
  case (Suc n)
  then have lt: "i < length lines" by simp
  have n: "n = length lines - Suc i" using Suc.hyps(2) by simp
  from g [OF lt] obtain enc where ge: "guess_enc fl (fst (lines ! i)) = Inr enc" ..
  obtain status d where r: "read_row fl rd root lines i enc (cur st) = (status, d)"
    by (cases "read_row fl rd root lines i enc (cur st)")
  note ok = memoryless_read [OF m ge r]
  show ?case
  proof (cases status)
    case False
    with r have r': "read_row fl rd root lines i enc (cur st) = (False, d)" by simp
    have st: "\<not> data_size_initialized (st\<lparr>cur := d\<rparr>)" using Suc.prems by simp
    have step: "payload_loop fl rd root lines i st =
        payload_loop fl rd root lines (Suc i) (st\<lparr>cur := d\<rparr>)"
      by (rule payload_loop_skip [where rd = rd and root = root, OF lt ge r'])
    have wr: "written_rows fl rd root lines i = written_rows fl rd root lines (Suc i)"
      using ok(1) False lt by (simp add: written_rows_step)
    show ?thesis
      unfolding step wr using Suc.hyps(1) [OF n st] .
  next
    case True
    with r have r': "read_row fl rd root lines i enc (cur st) = (True, d)" by simp
    from ok True have rec: "row_rec fl rd root lines i = d" and rok: "row_ok fl rd root lines i"
      by simp_all
    let ?s1 = "st\<lparr>cur := d, data_size := shape_size d, data_size_initialized := True\<rparr>"
    let ?s2 = "put_commit (key_str i (fst (lines ! i))) d ?s1"
    have "size_check (FLAGS_check_size fl) d (st\<lparr>cur := d\<rparr>) = Inr ?s1"
      using chk Suc.prems by (simp add: size_check_first)
    then have step: "payload_loop fl rd root lines i st = payload_loop fl rd root lines (Suc i) ?s2"
      by (rule payload_loop_write [where rd = rd and root = root, OF lt ge r'])
    have st: "data_size_initialized ?s2" "data_size ?s2 = shape_size d"
      by (simp_all add: put_commit_data_size)
    from payload_loop_checked [OF m g chk st(1), of "Suc i", unfolded st(2)] rec rok lt
    show ?thesis
      by (simp add: step written_rows_step split: if_splits)
  qed
qed

lemma last_batch_data_size:
  "data_size (last_batch st) = data_size st"
  "data_size_initialized (last_batch st) = data_size_initialized st"
  by (simp_all add: last_batch_def)

lemma payload_pass_records:
  assumes "memoryless fl rd root lines" and "payload_pass fl rd root lines = Inr st"
  shows "entries st = map (row_entry fl rd root lines) (written_rows fl rd root lines 0)"
proof -
  from assms(2) obtain st0 where l: "payload_loop fl rd root lines 0 new_pass = Inr st0"
    and e: "entries st = puts st0"
    by (rule payload_pass_Inr)
  from payload_loop_records [OF assms(1) l] e show ?thesis by (simp add: puts_new_pass)
qed

lemma payload_pass_checked:
  assumes m: "memoryless fl rd root lines"
    and g: "\<And>j. j < length lines \<Longrightarrow> \<exists>enc. guess_enc fl (fst (lines ! j)) = Inr enc"
    and chk: "FLAGS_check_size fl"
    and w: "written_rows fl rd root lines 0 = f # rest"
  shows "if \<forall>j \<in> set rest. data_len (row_rec fl rd root lines j) =
                             shape_size (row_rec fl rd root lines f)
         then \<exists>st. payload_pass fl rd root lines = Inr st \<and>
                   entries st = map (row_entry fl rd root lines) (f # rest) \<and>
                   data_size_initialized st \<and>
                   data_size st = shape_size (row_rec fl rd root lines f)
         else payload_pass fl rd root lines = Inl CheckEqFailed"
proof (cases "\<forall>j \<in> set rest. data_len (row_rec fl rd root lines j) =
                             shape_size (row_rec fl rd root lines f)")
  case True
  have n: "\<not> data_size_initialized new_pass" by (simp add: new_pass_def)
  from payload_loop_first [OF m g chk n, of 0] w True
  obtain st0 where l: "payload_loop fl rd root lines 0 new_pass = Inr st0"
    and d: "data_size st0 = shape_size (row_rec fl rd root lines f)" "data_size_initialized st0"
    by auto
  from l have p: "payload_pass fl rd root lines = Inr (last_batch st0)"
    by (simp add: payload_pass_def)
  from payload_pass_records [OF m p] w
  have "entries (last_batch st0) = map (row_entry fl rd root lines) (f # rest)" by simp
  with p d True show ?thesis by (simp add: last_batch_data_size)
next
  case False
  have n: "\<not> data_size_initialized new_pass" by (simp add: new_pass_def)
  from payload_loop_first [OF m g chk n, of 0] w False
  have "payload_loop fl rd root lines 0 new_pass = Inl CheckEqFailed" by auto
  with False show ?thesis by (simp add: payload_pass_def)
qed

lemma payload_pass_unchecked:
  assumes m: "memoryless fl rd root lines"
    and g: "\<And>j. j < length lines \<Longrightarrow> \<exists>enc. guess_enc fl (fst (lines ! j)) = Inr enc"
    and chk: "\<not> FLAGS_check_size fl \<or> written_rows fl rd root lines 0 = []"
  shows "\<exists>st. payload_pass fl rd root lines = Inr st \<and>
           entries st = map (row_entry fl rd root lines) (written_rows fl rd root lines 0)"
proof -
  have "\<exists>st. payload_pass fl rd root lines = Inr st"
  proof (cases "FLAGS_check_size fl")
    case False
    then show ?thesis using g by (rule payload_pass_total)
  next
    case True
    with chk have w: "written_rows fl rd root lines 0 = []" by simp
    have n: "\<not> data_size_initialized new_pass" by (simp add: new_pass_def)
    from payload_loop_first [OF m g True n, of 0] w
    show ?thesis by (auto simp: payload_pass_def)
  qed
  then obtain st where p: "payload_pass fl rd root lines = Inr st" ..
  with payload_pass_records [OF m p] show ?thesis by blast
qed

section \<open>The size check along the label pass\<close>

lemma label_loop_data_size:
  assumes "label_loop fl lines labels 0 new_pass = Inr st'" and "FLAGS_check_size fl"
    and "lines \<noteq> []"
  shows "data_size_initialized st' \<and> data_size st' = 2"
proof -
  let ?Q = "\<lambda>j s. if j = 0 then \<not> data_size_initialized s
                   else data_size_initialized s \<and> data_size s = 2"
  have "?Q (max 0 (length lines)) st'"
    using assms(1)
  proof (rule label_loop_rule)
    show "?Q 0 new_pass" by (simp add: new_pass_def)
  next
    fix j and s :: pass_state and s1
    let ?d = "label_datum (labels ! j) (cur s)"
    assume q: "?Q j s"
      and sc: "size_check (FLAGS_check_size fl) ?d (s\<lparr>cur := ?d\<rparr>) = Inr s1"
    from q sc assms(2) have "data_size_initialized s1 \<and> data_size s1 = 2"
      by (auto simp: size_check_def label_datum_fields int32_def split: if_splits)
    then show "?Q (Suc j) (put_commit (key_str j (fst (lines ! j))) ?d s1)"
      by (simp add: put_commit_data_size)
  qed
  with assms(3) show ?thesis by simp
qed

lemma label_pass_checked:
  assumes "length lines \<le> length labels"
  shows "\<exists>st. label_pass fl lines labels = Inr st \<and>
           list_all (\<lambda>kd. data_len (snd kd) = 2) (entries st) \<and>
           (FLAGS_check_size fl \<and> lines \<noteq> [] \<longrightarrow>
              data_size_initialized st \<and> data_size st = 2)"
proof -
  from label_pass_total [OF assms] obtain st where p: "label_pass fl lines labels = Inr st" ..
  then obtain st0 where l: "label_loop fl lines labels 0 new_pass = Inr st0"
    and s: "st = last_batch st0"
    and e: "entries st =
          map (\<lambda>j. (key_str j (fst (lines ! j)), label_datum (labels ! j) Datum))
            [0..<length lines]"
    by (rule label_pass_Inr)
  from e have "list_all (\<lambda>kd. data_len (snd kd) = 2) (entries st)"
    by (simp add: list_all_iff data_len_def label_datum_fields length_label_data)
  moreover have "FLAGS_check_size fl \<and> lines \<noteq> [] \<longrightarrow>
      data_size_initialized st \<and> data_size st = 2"
    using label_loop_data_size [OF l] s by (simp add: last_batch_data_size)
  ultimately show ?thesis using p by blast
qed

section \<open>Runs that end badly\<close>

text \<open>
  Claim C9 (empty manifest). The claim: a run over a manifest without rows completes
  and writes two empty stores. The program: lines 92-93 read \<^verbatim>\<open>lines[0]\<close> and
  \<^verbatim>\<open>labels[0]\<close> before any store is opened, so with an empty manifest the run ends
  in \<open>VectorOutOfRange\<close>, whatever the flags, the reader and the arguments.
\<close>

theorem empty_manifest_out_of_range:
  "main fl [prog, root_folder, listfile, db_name, db_label] [] perm rd = Inl VectorOutOfRange"
  by (simp add: main_def convert_def parse_manifest_def)

text \<open>
  Claim C7 (encoding type from the file name). With \<^verbatim>\<open>--encoded\<close> and no
  \<^verbatim>\<open>--encode_type\<close>, the path \<^verbatim>\<open>photo.PNG\<close> gives the type \<^verbatim>\<open>.png\<close>, as the claim says.
  For a path without a dot the claim says that the run goes on with an empty type;
  the program logs the warning and then calls \<^verbatim>\<open>fn.substr(npos)\<close>, which throws: the
  run ends in \<open>SubstrOutOfRange\<close>.
\<close>

theorem guess_enc_without_dot_throws:
  "guess_enc (default_flags\<lparr>FLAGS_encoded := True\<rparr>) ''photo.PNG'' = Inr ''.png'' \<and>
   guess_enc (default_flags\<lparr>FLAGS_encoded := True\<rparr>) ''photo'' = Inl SubstrOutOfRange \<and>
   convert (default_flags\<lparr>FLAGS_encoded := True\<rparr>) ''r/'' [''photo 1 2 3''] [] example_reader
     = Inl SubstrOutOfRange"
  by code_simp

text \<open>
  Claim C3 (shape of a label record). Every label record has channels 2, height 1,
  width 1 and label 0, as the claim says. Its data field, which the claim says is
  8 bytes (the primary and the composite label), is 2 bytes long:
  \<^verbatim>\<open>set_data(label_data, 2)\<close> copies two bytes, the low half of the primary label.
  The row \<^verbatim>\<open>a.jpg 258 2 3\<close> has the labels (258, 11) and the stored data
  \<open>[2, 1]\<close>; the composite label 11 is not in the store.
\<close>

theorem label_record_data_two_bytes:
  "channels (label_datum p d) = 2 \<and> height (label_datum p d) = 1 \<and>
   width (label_datum p d) = 1 \<and> label (label_datum p d) = 0 \<and>
   length (data (label_datum p d)) = 2 \<and>
   snd (parse_line ''a.jpg 258 2 3'') = (258, 11) \<and>
   stored (convert default_flags ''r/'' [''a.jpg 258 2 3''] [] example_reader) =
     Inr ([(''00000000_a.jpg'',
            \<lparr>channels = 1, height = 1, width = 2, data = [7, 8], label = 0, encoded = False\<rparr>)],
          [(''00000000_a.jpg'',
            \<lparr>channels = 2, height = 1, width = 1, data = [2, 1], label = 0, encoded = False\<rparr>)])"
proof -
  have "length (label_data p) = 8"
    by (simp add: label_data_def int_bytes_def)
  then have "length (data (label_datum p d)) = 2"
    by (simp add: label_datum_def set_data_def)
  moreover have "snd (parse_line ''a.jpg 258 2 3'') = (258, 11)"
    by code_simp
  moreover have "stored (convert default_flags ''r/'' [''a.jpg 258 2 3''] [] example_reader) =
     Inr ([(''00000000_a.jpg'',
            \<lparr>channels = 1, height = 1, width = 2, data = [7, 8], label = 0, encoded = False\<rparr>)],
          [(''00000000_a.jpg'',
            \<lparr>channels = 2, height = 1, width = 1, data = [2, 1], label = 0, encoded = False\<rparr>)])"
    by code_simp
  ultimately show ?thesis
    by (simp add: label_datum_def set_data_def)
qed

text \<open>
  Claim C1 (alignment of the two stores under \<^verbatim>\<open>--shuffle\<close>). The claim: the entry
  at a key carries the labels of the manifest row whose path is in the key. The
  program shuffles \<^verbatim>\<open>lines\<close> only: with the manifest rows \<^verbatim>\<open>a.jpg 1 0 0\<close> and
  \<^verbatim>\<open>b.jpg 2 0 0\<close> and the two rows swapped by the shuffle, the label store has the
  record of the labels (1, 0) under the key of \<^verbatim>\<open>b.jpg\<close> and the record of (2, 0)
  under the key of \<^verbatim>\<open>a.jpg\<close> (the stored data is the low half of the primary
  label: 1 for the labels of \<^verbatim>\<open>a.jpg\<close>, 2 for those of \<^verbatim>\<open>b.jpg\<close>).
\<close>

theorem shuffle_leaves_labels_behind:
  "map (\<lambda>l. (fst (fst (parse_line l)), snd (parse_line l))) [''a.jpg 1 0 0'', ''b.jpg 2 0 0'']
     = [(''a.jpg'', (1, 0)), (''b.jpg'', (2, 0))] \<and>
   stored (convert (default_flags\<lparr>FLAGS_shuffle := True\<rparr>) ''r/''
            [''a.jpg 1 0 0'', ''b.jpg 2 0 0''] [1, 0] example_reader) =
     Inr ([(''00000000_b.jpg'',
            \<lparr>channels = 1, height = 1, width = 2, data = [7, 8], label = 0, encoded = False\<rparr>),
           (''00000001_a.jpg'',
            \<lparr>channels = 1, height = 1, width = 2, data = [7, 8], label = 0, encoded = False\<rparr>)],
          [(''00000000_b.jpg'',
            \<lparr>channels = 2, height = 1, width = 1, data = [1, 0], label = 0, encoded = False\<rparr>),
           (''00000001_a.jpg'',
            \<lparr>channels = 2, height = 1, width = 1, data = [2, 0], label = 0, encoded = False\<rparr>)])"
  by code_simp

section \<open>Batching (lines 155-166 and 209-220)\<close>

lemma no_empty_commit:
  "batch_inv st \<Longrightarrow> [] \<notin> set (commits (last_batch st))"
proof -
  assume b: "batch_inv st"
  have "0 \<notin> set (map length (commits (last_batch st)))"
    by (simp only: commit_sizes_last_batch [OF b]) auto
  then show ?thesis by force
qed

text \<open>
  Claim C4 (transaction batching). For each store, a pass that completes has
  committed its puts in batches of exactly 1000, in order, followed by one last
  batch with the rest when the number of puts is not a multiple of 1000; no commit
  is empty and no put is left in an open transaction. For 2500 written rows the
  commit sizes are 1000, 1000, 500; for 2000 rows there is no third commit; for no
  row there is no commit. The label pass writes one row per manifest row.
\<close>

theorem commits_in_batches_of_1000:
  "(payload_pass fl rd root_folder lines = Inr st \<longrightarrow>
      commit_sizes st = batch_sizes (length (entries st)) \<and> [] \<notin> set (commits st) \<and>
      txn st = [] \<and> count st = length (entries st)) \<and>
   (label_pass fl lines labels = Inr st' \<longrightarrow>
      commit_sizes st' = batch_sizes (length (entries st')) \<and> [] \<notin> set (commits st') \<and>
      txn st' = [] \<and> count st' = length (entries st') \<and> length (entries st') = length lines) \<and>
   batch_sizes 2500 = [1000, 1000, 500] \<and> batch_sizes 2000 = [1000, 1000] \<and>
   batch_sizes 0 = []"
proof (intro conjI impI)
  assume "payload_pass fl rd root_folder lines = Inr st"
  then obtain st0 where s: "st = last_batch st0" and b: "batch_inv st0"
    and e: "entries st = puts st0" and c: "count st = length (entries st)"
    by (rule payload_pass_Inr)
  from s c have c0: "count st0 = length (entries st)" by (simp add: count_last_batch)
  show "commit_sizes st = batch_sizes (length (entries st))"
    unfolding commit_sizes_def batch_sizes_def s
    by (simp only: commit_sizes_last_batch [OF b]) (simp add: c0 [unfolded s])
  show "[] \<notin> set (commits st)" unfolding s by (rule no_empty_commit [OF b])
  show "txn st = []" unfolding s by (rule txn_last_batch [OF b])
  show "count st = length (entries st)" by (rule c)
next
  assume "label_pass fl lines labels = Inr st'"
  then obtain st0 where s: "st' = last_batch st0" and b: "batch_inv st0"
    and c: "count st' = length lines"
    and e: "entries st' =
          map (\<lambda>j. (key_str j (fst (lines ! j)), label_datum (labels ! j) Datum))
            [0..<length lines]"
    by (rule label_pass_Inr)
  from e have n: "length (entries st') = length lines" by simp
  from s c n have c0: "count st0 = length (entries st')" by (simp add: count_last_batch)
  show "commit_sizes st' = batch_sizes (length (entries st'))"
    unfolding commit_sizes_def batch_sizes_def s
    by (simp only: commit_sizes_last_batch [OF b]) (simp add: c0 [unfolded s])
  show "[] \<notin> set (commits st')" unfolding s by (rule no_empty_commit [OF b])
  show "txn st' = []" unfolding s by (rule txn_last_batch [OF b])
  show "count st' = length (entries st')" using c n by simp
  show "length (entries st') = length lines" by (rule n)
next
  have two: "replicate 2 (1000::nat) = [1000, 1000]"
    by (simp add: numeral_2_eq_2)
  show "batch_sizes 2500 = [1000, 1000, 500]"
    by (simp add: batch_sizes_def two)
  show "batch_sizes 2000 = [1000, 1000]"
    by (simp add: batch_sizes_def two)
  show "batch_sizes 0 = []" by (simp add: batch_sizes_def)
qed

theorem commits_in_batches_of_1000_witness:
  "(\<exists>st. payload_pass default_flags example_reader ''r/''
           [(''a.jpg'', 0), (''missing.jpg'', 0), (''b.jpg'', 0)] = Inr st \<and>
         commit_sizes st = [2] \<and> txn st = [] \<and> count st = 2) \<and>
   (\<exists>st. label_pass default_flags (replicate 2500 (''a.jpg'', 0)) (replicate 2500 (1, 2))
           = Inr st \<and>
         commit_sizes st = [1000, 1000, 500] \<and> txn st = [] \<and> count st = 2500)"
proof (rule conjI)
  let ?lines = "[(''a.jpg'', 0), (''missing.jpg'', 0), (''b.jpg'', 0)]"
  have run: "payload_pass default_flags example_reader ''r/'' ?lines =
      Inr \<lparr>commits = [[(''00000000_a.jpg'',
                 \<lparr>channels = 1, height = 1, width = 2, data = [7, 8], label = 0,
                    encoded = False\<rparr>),
               (''00000002_b.jpg'',
                 \<lparr>channels = 1, height = 1, width = 2, data = [7, 8], label = 0,
                    encoded = False\<rparr>)]],
            txn = [], count = 2, data_size = 0, data_size_initialized = False,
            cur = \<lparr>channels = 1, height = 1, width = 2, data = [7, 8], label = 0,
                    encoded = False\<rparr>\<rparr>" (is "_ = Inr ?st")
    by code_simp
  have "commit_sizes ?st = batch_sizes (length (entries ?st)) \<and> txn ?st = [] \<and>
        count ?st = length (entries ?st)"
    using commits_in_batches_of_1000
      [where fl = default_flags and rd = example_reader and root_folder = "''r/''"
         and lines = ?lines and st = ?st] run
    by (simp only: simp_thms)
  then have "commit_sizes ?st = [2] \<and> txn ?st = [] \<and> count ?st = 2"
    by (simp add: entries_def batch_sizes_def)
  with run show "\<exists>st. payload_pass default_flags example_reader ''r/'' ?lines = Inr st \<and>
      commit_sizes st = [2] \<and> txn st = [] \<and> count st = 2"
    by blast
next
  let ?lines = "replicate 2500 (''a.jpg'', 0::int)"
  let ?labels = "replicate 2500 (1::int, 2::int)"
  obtain st where run: "label_pass default_flags ?lines ?labels = Inr st"
    using label_pass_total [of ?lines ?labels default_flags] by auto
  have "commit_sizes st = batch_sizes (length (entries st)) \<and> txn st = [] \<and>
        count st = length (entries st) \<and> length (entries st) = length ?lines \<and>
        batch_sizes 2500 = [1000, 1000, 500]"
    using commits_in_batches_of_1000
      [where fl = default_flags and lines = ?lines and labels = ?labels and st' = st] run
    by (simp only: simp_thms)
  then have "commit_sizes st = [1000, 1000, 500] \<and> txn st = [] \<and> count st = 2500"
    by simp
  with run show "\<exists>st. label_pass default_flags ?lines ?labels = Inr st \<and>
      commit_sizes st = [1000, 1000, 500] \<and> txn st = [] \<and> count st = 2500"
    by blast
qed

section \<open>Rows that cannot be read (lines 133-136)\<close>

text \<open>
  Claim C6 (skip semantics of the payload store). When the read of row \<open>i\<close>
  fails, the loop goes on with row \<open>i + 1\<close> in the same state: no put, the same
  \<^verbatim>\<open>count\<close>, the same commits (only the reused \<^verbatim>\<open>Datum\<close> is what the reader left).
  For a stateless reader, a pass that completes has written exactly the rows whose
  read succeeds, under their own keys, and \<^verbatim>\<open>count\<close> is their number.
\<close>

theorem failed_read_skips_row:
  "(i < length lines \<and> guess_enc fl (fst (lines ! i)) = Inr enc \<and>
    read_row fl rd root_folder lines i enc (cur st) = (False, d) \<longrightarrow>
      payload_loop fl rd root_folder lines i st =
        payload_loop fl rd root_folder lines (Suc i) (st\<lparr>cur := d\<rparr>)) \<and>
   (stateless fl rd root_folder lines \<and> payload_pass fl rd root_folder lines = Inr st' \<longrightarrow>
      map fst (entries st') =
        map (\<lambda>j. key_str j (fst (lines ! j)))
          (filter (row_ok fl rd root_folder lines) [0..<length lines]) \<and>
      count st' = length (filter (row_ok fl rd root_folder lines) [0..<length lines]))"
proof (intro conjI impI)
  assume "i < length lines \<and> guess_enc fl (fst (lines ! i)) = Inr enc \<and>
    read_row fl rd root_folder lines i enc (cur st) = (False, d)"
  then show "payload_loop fl rd root_folder lines i st =
        payload_loop fl rd root_folder lines (Suc i) (st\<lparr>cur := d\<rparr>)"
    using payload_loop_skip [where rd = rd and root = root_folder] by blast
next
  assume a: "stateless fl rd root_folder lines \<and> payload_pass fl rd root_folder lines = Inr st'"
  then show "map fst (entries st') =
        map (\<lambda>j. key_str j (fst (lines ! j)))
          (filter (row_ok fl rd root_folder lines) [0..<length lines])"
    using payload_pass_written(1) by blast
  from a show "count st' = length (filter (row_ok fl rd root_folder lines) [0..<length lines])"
    using payload_pass_written(2) by blast
qed

theorem failed_read_skips_row_witness:
  "payload_loop default_flags example_reader ''r/''
     [(''a.jpg'', 0), (''missing.jpg'', 0), (''b.jpg'', 0)] 1 new_pass =
   payload_loop default_flags example_reader ''r/''
     [(''a.jpg'', 0), (''missing.jpg'', 0), (''b.jpg'', 0)] 2 new_pass \<and>
   (\<exists>st'. payload_pass default_flags example_reader ''r/''
            [(''a.jpg'', 0), (''missing.jpg'', 0), (''b.jpg'', 0)] = Inr st' \<and>
          map fst (entries st') = [''00000000_a.jpg'', ''00000002_b.jpg''] \<and> count st' = 2)"
proof (rule conjI)
  let ?lines = "[(''a.jpg'', 0::int), (''missing.jpg'', 0), (''b.jpg'', 0)]"
  have h1: "1 < length ?lines" by simp
  have h2: "guess_enc default_flags (fst (?lines ! 1)) = Inr ''''"
    by (simp add: guess_enc_def default_flags_def)
  have h3: "read_row default_flags example_reader ''r/'' ?lines 1 '''' (cur new_pass)
              = (False, Datum)"
    by (simp add: example_reader_def new_pass_def)
  have c: "new_pass\<lparr>cur := Datum\<rparr> = new_pass" by (simp add: new_pass_def)
  show "payload_loop default_flags example_reader ''r/'' ?lines 1 new_pass =
        payload_loop default_flags example_reader ''r/'' ?lines 2 new_pass"
    using failed_read_skips_row
      [where fl = default_flags and rd = example_reader and root_folder = "''r/''"
         and lines = ?lines and i = 1 and enc = "''''" and st = new_pass and d = Datum]
      h1 h2 h3 c
    by (simp add: numeral_2_eq_2)
  have sl: "stateless default_flags example_reader ''r/'' ?lines"
    by (simp add: stateless_def example_reader_def)
  obtain st' where run: "payload_pass default_flags example_reader ''r/'' ?lines = Inr st'"
    using payload_pass_total [of default_flags ?lines example_reader "''r/''"]
    by (auto simp: guess_enc_def default_flags_def)
  have ok: "filter (row_ok default_flags example_reader ''r/'' ?lines) [0..<length ?lines]
              = [0, 2]"
    by code_simp
  have keys: "map (\<lambda>j. key_str j (fst (?lines ! j))) [0, 2]
                = [''00000000_a.jpg'', ''00000002_b.jpg'']"
    by code_simp
  have res: "map fst (entries st') = [''00000000_a.jpg'', ''00000002_b.jpg''] \<and> count st' = 2"
    using failed_read_skips_row
      [where fl = default_flags and rd = example_reader and root_folder = "''r/''"
         and lines = ?lines and st' = st'] sl run
    by (simp only: ok keys simp_thms) simp
  show "\<exists>st'. payload_pass default_flags example_reader ''r/'' ?lines = Inr st' \<and>
      map fst (entries st') = [''00000000_a.jpg'', ''00000002_b.jpg''] \<and> count st' = 2"
    by (rule exI [of _ st']) (simp only: run res simp_thms)
qed

section \<open>Keys (lines 148 and 202)\<close>

declare digits10.simps [simp del]

lemma length_digits10: "0 < k \<Longrightarrow> n < 10 ^ k \<Longrightarrow> length (digits10 n) \<le> k"
proof (induction k arbitrary: n)
  case 0
  then show ?case by simp
next
  case (Suc k)
  show ?case
  proof (cases "n < 10")
    case True
    then have "digits10 n = [char_of (48 + n)]" by (subst digits10.simps) simp
    then show ?thesis by simp
  next
    case False
    with Suc.prems have k: "0 < k" by (cases k) auto
    from Suc.prems have "n div 10 < 10 ^ k"
      by (simp add: less_mult_imp_div_less mult.commute)
    with Suc.IH [OF k] have "length (digits10 (n div 10)) \<le> k" by blast
    moreover from False have "digits10 n = digits10 (n div 10) @ [char_of (48 + n mod 10)]"
      by (subst digits10.simps) simp
    ultimately show ?thesis by simp
  qed
qed

lemma length_format_int: "n < 10 ^ 8 \<Longrightarrow> length (format_int n 8) = 8"
  using length_digits10 [of 8 n] by (simp add: format_int_def Let_def)

lemma key_str_example: "key_str 5 ''img5.jpg'' = ''00000005_img5.jpg''"
  by code_simp

lemma payload_loop_tied:
  assumes run: "payload_loop fl rd root lines i st = Inr st'"
    and start: "\<And>kd. kd \<in> set (puts st) \<Longrightarrow> P kd"
    and tie: "\<And>j enc c d. j < length lines \<Longrightarrow> guess_enc fl (fst (lines ! j)) = Inr enc \<Longrightarrow>
        read_row fl rd root lines j enc c = (True, d) \<Longrightarrow> P (key_str j (fst (lines ! j)), d)"
  shows "kd \<in> set (puts st') \<Longrightarrow> P kd"
proof -
  let ?Q = "\<lambda>j s. \<forall>kd \<in> set (puts s). P kd"
  have "?Q (max i (length lines)) st'"
    using run
  proof (rule payload_loop_rule)
    show "?Q i st" using start by blast
  next
    fix j s enc d
    assume "?Q j s"
    then show "?Q (Suc j) (s\<lparr>cur := d\<rparr>)" by (simp add: puts_cur_update)
  next
    fix j s enc d s1
    assume lt: "j < length lines" and q: "?Q j s"
      and g: "guess_enc fl (fst (lines ! j)) = Inr enc"
      and r: "read_row fl rd root lines j enc (cur s) = (True, d)"
      and sc: "size_check (FLAGS_check_size fl) d (s\<lparr>cur := d\<rparr>) = Inr s1"
    have "P (key_str j (fst (lines ! j)), d)" by (rule tie [OF lt g r])
    moreover have "puts s1 = puts s"
      using size_check_puts [OF sc] by (simp add: puts_cur_update)
    ultimately show "?Q (Suc j) (put_commit (key_str j (fst (lines ! j))) d s1)"
      using q by (simp add: puts_put_commit)
  qed
  then show "kd \<in> set (puts st') \<Longrightarrow> P kd" by blast
qed

text \<open>
  Claim C8 (key generation). In a run that completes, with \<open>write_order\<close> the
  sequence used for writing (the manifest rows, shuffled or not):
  \<^item> the key of the label entry at every position \<open>i\<close> is \<open>format_int i 8\<close>, then
    \<open>_\<close>, then the path at position \<open>i\<close>;
  \<^item> the keys of the payload store are that same expression at an increasing
    selection of positions, and every payload entry is, for a position \<open>i\<close>, that key
    together with a record the reader returned with success for the path at \<open>i\<close>;
  \<^item> for a stateless reader the positions are exactly those whose read succeeds, and
    for a memoryless reader the payload store is exactly the list of these keys
    with the records read for them.
  Position 5 with the path \<^verbatim>\<open>img5.jpg\<close> gives \<^verbatim>\<open>00000005_img5.jpg\<close>, and below
  \<open>10 ^ 8\<close> the rendered position has 8 characters.
\<close>

theorem key_is_padded_position_and_path:
  "(convert fl root_folder infile perm rd = Inr (p, l) \<longrightarrow>
      map fst (entries l) =
        map (\<lambda>i. format_int i 8 @ ''_'' @ fst (write_order fl perm infile ! i))
          [0..<length infile] \<and>
      (\<exists>js. subseq js [0..<length infile] \<and>
            map fst (entries p) =
              map (\<lambda>i. format_int i 8 @ ''_'' @ fst (write_order fl perm infile ! i)) js) \<and>
      (\<forall>kd \<in> set (entries p).
          \<exists>i < length infile. \<exists>enc c.
            fst kd = format_int i 8 @ ''_'' @ fst (write_order fl perm infile ! i) \<and>
            guess_enc fl (fst (write_order fl perm infile ! i)) = Inr enc \<and>
            read_row fl rd root_folder (write_order fl perm infile) i enc c = (True, snd kd)) \<and>
      (stateless fl rd root_folder (write_order fl perm infile) \<longrightarrow>
         map fst (entries p) =
           map (\<lambda>i. format_int i 8 @ ''_'' @ fst (write_order fl perm infile ! i))
             (filter (row_ok fl rd root_folder (write_order fl perm infile))
                [0..<length infile])) \<and>
      (memoryless fl rd root_folder (write_order fl perm infile) \<longrightarrow>
         entries p =
           map (\<lambda>i. (format_int i 8 @ ''_'' @ fst (write_order fl perm infile ! i),
                     row_rec fl rd root_folder (write_order fl perm infile) i))
             (filter (row_ok fl rd root_folder (write_order fl perm infile))
                [0..<length infile]))) \<and>
   key_str 5 ''img5.jpg'' = ''00000005_img5.jpg'' \<and>
   (n < 10 ^ 8 \<longrightarrow> length (format_int n 8) = 8)"
proof (intro conjI impI ballI)
  let ?lines = "write_order fl perm infile"
  assume c: "convert fl root_folder infile perm rd = Inr (p, l)"
  then have pp: "payload_pass fl rd root_folder ?lines = Inr p"
    and lp: "label_pass fl ?lines (snd (parse_manifest infile)) = Inr l"
    by (simp_all add: convert_Inr)
  from lp have "entries l =
      map (\<lambda>j. (key_str j (fst (?lines ! j)),
                label_datum (snd (parse_manifest infile) ! j) Datum)) [0..<length ?lines]"
    by (rule label_pass_Inr)
  then show "map fst (entries l) =
      map (\<lambda>i. format_int i 8 @ ''_'' @ fst (?lines ! i)) [0..<length infile]"
    by (simp add: key_str_def length_write_order comp_def)
  from payload_pass_keys [OF pp]
  show "\<exists>js. subseq js [0..<length infile] \<and>
      map fst (entries p) = map (\<lambda>i. format_int i 8 @ ''_'' @ fst (?lines ! i)) js"
    by (simp add: key_str_def length_write_order)
  {
    assume "stateless fl rd root_folder ?lines"
    with pp have "map fst (entries p) =
        map (\<lambda>j. key_str j (fst (?lines ! j)))
          (filter (row_ok fl rd root_folder ?lines) [0..<length ?lines])"
      by (rule payload_pass_written(1))
    then show "map fst (entries p) =
        map (\<lambda>i. format_int i 8 @ ''_'' @ fst (?lines ! i))
          (filter (row_ok fl rd root_folder ?lines) [0..<length infile])"
      by (simp add: key_str_def length_write_order)
  }
  {
    assume "memoryless fl rd root_folder ?lines"
    from payload_pass_records [OF this pp]
    show "entries p =
        map (\<lambda>i. (format_int i 8 @ ''_'' @ fst (?lines ! i), row_rec fl rd root_folder ?lines i))
          (filter (row_ok fl rd root_folder ?lines) [0..<length infile])"
      by (simp add: written_rows_def length_write_order row_entry_def [abs_def])
  }
  {
    fix kd
    assume kd: "kd \<in> set (entries p)"
    from pp obtain st0 where
      loop: "payload_loop fl rd root_folder ?lines 0 new_pass = Inr st0"
      and e: "entries p = puts st0"
      by (rule payload_pass_Inr)
    from kd e have kd': "kd \<in> set (puts st0)" by simp
    let ?P = "\<lambda>kd. \<exists>i < length infile. \<exists>enc c.
        fst kd = format_int i 8 @ ''_'' @ fst (?lines ! i) \<and>
        guess_enc fl (fst (?lines ! i)) = Inr enc \<and>
        read_row fl rd root_folder ?lines i enc c = (True, snd kd)"
    show "?P kd"
    proof (rule payload_loop_tied [where P = ?P, OF loop _ _ kd'])
      fix x assume "x \<in> set (puts new_pass)"
      then show "?P x" by (simp add: puts_new_pass)
    next
      fix j enc c d
      assume "j < length ?lines" and "guess_enc fl (fst (?lines ! j)) = Inr enc"
        and "read_row fl rd root_folder ?lines j enc c = (True, d)"
      then show "?P (key_str j (fst (?lines ! j)), d)"
        by (auto simp: key_str_def length_write_order)
    qed
  }
next
  show "key_str 5 ''img5.jpg'' = ''00000005_img5.jpg''" by (rule key_str_example)
next
  assume "n < 10 ^ 8"
  then show "length (format_int n 8) = 8" by (rule length_format_int)
qed

theorem key_is_padded_position_and_path_witness:
  "(\<exists>p l. convert (default_flags\<lparr>FLAGS_shuffle := True\<rparr>) ''r/''
            [''a.jpg 1 0 0'', ''missing.jpg 2 0 0'', ''big.jpg 3 0 0'', ''img5.jpg 4 0 0'']
            [3, 0, 1, 2] example_reader = Inr (p, l) \<and>
          map fst (entries l) =
            [''00000000_img5.jpg'', ''00000001_a.jpg'', ''00000002_missing.jpg'',
             ''00000003_big.jpg''] \<and>
          map (\<lambda>kd. (fst kd, data (snd kd))) (entries p) =
            [(''00000000_img5.jpg'', [7, 8]), (''00000001_a.jpg'', [7, 8]),
             (''00000003_big.jpg'', [1, 2, 3, 4])]) \<and>
   length (format_int 5 8) = 8"
proof (rule conjI)
  let ?fl = "default_flags\<lparr>FLAGS_shuffle := True\<rparr>"
  let ?infile = "[''a.jpg 1 0 0'', ''missing.jpg 2 0 0'', ''big.jpg 3 0 0'', ''img5.jpg 4 0 0'']"
  let ?perm = "[3, 0, 1, 2 :: nat]"
  let ?lines = "[(''img5.jpg'', 0::int), (''a.jpg'', 0), (''missing.jpg'', 0), (''big.jpg'', 0)]"
  have wo: "write_order ?fl ?perm ?infile = ?lines" by code_simp
  have g: "\<And>fn. guess_enc ?fl fn = Inr ''''"
    by (simp add: guess_enc_def default_flags_def)
  have "\<exists>p. payload_pass ?fl example_reader ''r/'' (write_order ?fl ?perm ?infile) = Inr p"
  proof (rule payload_pass_total)
    show "\<not> FLAGS_check_size ?fl" by (simp add: default_flags_def)
  next
    fix j
    show "\<exists>enc. guess_enc ?fl (fst (write_order ?fl ?perm ?infile ! j)) = Inr enc"
      using g by blast
  qed
  then obtain p l where run: "convert ?fl ''r/'' ?infile ?perm example_reader = Inr (p, l)"
    using convert_payload_Inr [of ?infile ?fl example_reader "''r/''" ?perm] by auto
  have m: "memoryless ?fl example_reader ''r/'' ?lines"
    by (simp add: memoryless_def example_reader_def)
  have lkeys: "map (\<lambda>i. format_int i 8 @ ''_'' @ fst (?lines ! i)) [0..<length ?infile] =
      [''00000000_img5.jpg'', ''00000001_a.jpg'', ''00000002_missing.jpg'',
       ''00000003_big.jpg'']"
    by code_simp
  have precs: "map (\<lambda>kd. (fst kd, data (snd kd)))
       (map (\<lambda>i. (format_int i 8 @ ''_'' @ fst (?lines ! i),
                  row_rec ?fl example_reader ''r/'' ?lines i))
          (filter (row_ok ?fl example_reader ''r/'' ?lines) [0..<length ?infile])) =
      [(''00000000_img5.jpg'', [7, 8]), (''00000001_a.jpg'', [7, 8]),
       (''00000003_big.jpg'', [1, 2, 3, 4])]"
    by code_simp
  note t = key_is_padded_position_and_path
      [where fl = ?fl and root_folder = "''r/''" and infile = ?infile and perm = ?perm
         and rd = example_reader and p = p and l = l and n = 5,
       THEN conjunct1, THEN mp, OF run, unfolded wo]
  from t have kl: "map fst (entries l) =
      map (\<lambda>i. format_int i 8 @ ''_'' @ fst (?lines ! i)) [0..<length ?infile]"
    by (elim conjE)
  from t have "memoryless ?fl example_reader ''r/'' ?lines \<longrightarrow>
      entries p =
        map (\<lambda>i. (format_int i 8 @ ''_'' @ fst (?lines ! i),
                  row_rec ?fl example_reader ''r/'' ?lines i))
          (filter (row_ok ?fl example_reader ''r/'' ?lines) [0..<length ?infile])"
    by (elim conjE)
  with m have ep: "entries p =
        map (\<lambda>i. (format_int i 8 @ ''_'' @ fst (?lines ! i),
                  row_rec ?fl example_reader ''r/'' ?lines i))
          (filter (row_ok ?fl example_reader ''r/'' ?lines) [0..<length ?infile])"
    by (rule rev_mp)
  show "\<exists>p l. convert ?fl ''r/'' ?infile ?perm example_reader = Inr (p, l) \<and>
      map fst (entries l) =
        [''00000000_img5.jpg'', ''00000001_a.jpg'', ''00000002_missing.jpg'',
         ''00000003_big.jpg''] \<and>
      map (\<lambda>kd. (fst kd, data (snd kd))) (entries p) =
        [(''00000000_img5.jpg'', [7, 8]), (''00000001_a.jpg'', [7, 8]),
         (''00000003_big.jpg'', [1, 2, 3, 4])]"
    by (intro exI [of _ p] exI [of _ l]) (simp only: run kl lkeys ep precs simp_thms)
next
  show "length (format_int 5 8) = 8"
    using key_is_padded_position_and_path
      [where fl = default_flags and root_folder = "''r/''" and infile = "[]" and perm = "[]"
         and rd = example_reader and p = new_pass and l = new_pass and n = 5]
    by simp
qed

section \<open>The label field of the payload records (lines 87 and 133-135)\<close>

lemma convert_payload:
  "map_sum id fst (convert fl root infile perm rd) =
     (if infile = [] then Inl VectorOutOfRange
      else payload_pass fl rd root (write_order fl perm infile))"
proof (cases "infile = []")
  case True
  then show ?thesis by (simp add: convert_eq)
next
  case False
  obtain l where l: "label_pass fl (write_order fl perm infile) (snd (parse_manifest infile)) = Inr l"
    using label_pass_write_order by blast
  show ?thesis
    by (cases "payload_pass fl rd root (write_order fl perm infile)")
      (simp_all add: convert_eq False l)
qed

lemma write_order_paths:
  assumes "map (\<lambda>l. fst (fst (parse_line l))) infile = map (\<lambda>l. fst (fst (parse_line l))) infile'"
  shows "write_order fl perm infile = write_order fl perm infile'"
proof -
  have "\<And>l. fst (parse_line l) = (fst (fst (parse_line l)), 0)"
    using parse_line_label_zero by (simp add: prod_eq_iff)
  then have "\<And>xs. map (\<lambda>l. fst (parse_line l)) xs =
      map (\<lambda>path. (path, 0)) (map (\<lambda>l. fst (fst (parse_line l))) xs)"
    by (simp add: comp_def)
  then have "map (\<lambda>l. fst (parse_line l)) infile = map (\<lambda>l. fst (parse_line l)) infile'"
    using assms by metis
  then show ?thesis by (simp add: write_order_def parse_manifest_def)
qed

text \<open>
  Claim C10 (the payload record's label). The parser stores 0 as the second
  component of every entry of \<^verbatim>\<open>lines\<close>, and that component is the label the reader
  is called with: in a run that completes, every record of the payload store has
  label 0 (with the reader as the spec describes it, which stores the label it is
  given). For any reader, the payload store and the outcome of the payload pass
  depend on the manifest through its paths only: two manifests with the same paths
  and any numeric fields give the same payload result.
\<close>

theorem payload_label_is_zero:
  "snd (fst (parse_line line)) = 0 \<and>
   (convert fl root_folder infile perm (ReadImageToDatum encode) = Inr (p, l) \<longrightarrow>
      (\<forall>kd \<in> set (entries p). label (snd kd) = 0)) \<and>
   (map (\<lambda>l. fst (fst (parse_line l))) infile = map (\<lambda>l. fst (fst (parse_line l))) infile' \<longrightarrow>
      map_sum id fst (convert fl root_folder infile perm rd) =
      map_sum id fst (convert fl root_folder infile' perm rd))"
proof (intro conjI impI ballI)
  show "snd (fst (parse_line line)) = 0" by (rule parse_line_label_zero)
next
  fix kd
  let ?lines = "write_order fl perm infile"
  assume "convert fl root_folder infile perm (ReadImageToDatum encode) = Inr (p, l)"
    and kd: "kd \<in> set (entries p)"
  then have "payload_pass fl (ReadImageToDatum encode) root_folder ?lines = Inr p"
    by (simp add: convert_Inr)
  then obtain st0 where
    loop: "payload_loop fl (ReadImageToDatum encode) root_folder ?lines 0 new_pass = Inr st0"
    and e: "entries p = puts st0"
    by (rule payload_pass_Inr)
  from kd e have kd': "kd \<in> set (puts st0)" by simp
  show "label (snd kd) = 0"
  proof (rule payload_loop_labels [OF loop _ _ kd'])
    fix x assume "x \<in> set ?lines"
    then show "snd x = 0" by (rule write_order_label_zero)
  next
    fix x assume "x \<in> set (puts new_pass)"
    then show "label (snd x) = 0" by (simp add: puts_new_pass)
  qed
next
  assume a: "map (\<lambda>l. fst (fst (parse_line l))) infile =
      map (\<lambda>l. fst (fst (parse_line l))) infile'"
  then have "length infile = length infile'" by (rule map_eq_imp_length_eq)
  then have "infile = [] \<longleftrightarrow> infile' = []" by auto
  with write_order_paths [OF a, of fl perm]
  show "map_sum id fst (convert fl root_folder infile perm rd) =
      map_sum id fst (convert fl root_folder infile' perm rd)"
    by (simp add: convert_payload)
qed

theorem payload_label_is_zero_witness:
  "(\<exists>p l. convert default_flags ''r/'' [''a.jpg 7 1 1'', ''b.jpg 9 2 2''] []
            (ReadImageToDatum example_encode) = Inr (p, l) \<and>
          length (entries p) = 2 \<and> list_all (\<lambda>kd. label (snd kd) = 0) (entries p)) \<and>
   map_sum id fst (convert default_flags ''r/'' [''a.jpg 7 1 1'', ''b.jpg 9 2 2''] []
                     example_reader) =
   map_sum id fst (convert default_flags ''r/'' [''a.jpg 0 0 0'', ''b.jpg''] [] example_reader)"
proof (rule conjI)
  let ?infile = "[''a.jpg 7 1 1'', ''b.jpg 9 2 2'']"
  let ?rd = "ReadImageToDatum example_encode"
  have g: "\<And>fn. guess_enc default_flags fn = Inr ''''"
    by (simp add: guess_enc_def default_flags_def)
  have "\<exists>p. payload_pass default_flags ?rd ''r/'' (write_order default_flags [] ?infile) = Inr p"
  proof (rule payload_pass_total)
    show "\<not> FLAGS_check_size default_flags" by (simp add: default_flags_def)
  next
    fix j
    show "\<exists>enc. guess_enc default_flags (fst (write_order default_flags [] ?infile ! j)) = Inr enc"
      using g by blast
  qed
  then obtain p l where run: "convert default_flags ''r/'' ?infile [] ?rd = Inr (p, l)"
    using convert_payload_Inr [of ?infile default_flags ?rd "''r/''" "[]"] by auto
  have len: "length (entries p) = 2"
  proof -
    have "stored (convert default_flags ''r/'' ?infile [] ?rd) =
        Inr ([(''00000000_a.jpg'',
               \<lparr>channels = 1, height = 1, width = 2, data = [7, 8], label = 0,
                  encoded = False\<rparr>),
              (''00000001_b.jpg'',
               \<lparr>channels = 1, height = 1, width = 2, data = [7, 8], label = 0,
                  encoded = False\<rparr>)],
             [(''00000000_a.jpg'', label_datum (7, 5) Datum),
              (''00000001_b.jpg'', label_datum (9, 10) Datum)])"
      by code_simp
    with run show ?thesis by (simp add: stored_def)
  qed
  have "\<forall>kd \<in> set (entries p). label (snd kd) = 0"
    using payload_label_is_zero
      [where fl = default_flags and root_folder = "''r/''" and infile = ?infile and perm = "[]"
         and encode = example_encode and p = p and l = l and infile' = "[]" and line = "[]"
         and rd = example_reader] run
    by (simp only: simp_thms) (elim conjE, assumption)
  then have "list_all (\<lambda>kd. label (snd kd) = 0) (entries p)"
    by (simp add: list_all_iff)
  with run len show "\<exists>p l. convert default_flags ''r/'' ?infile [] ?rd = Inr (p, l) \<and>
      length (entries p) = 2 \<and> list_all (\<lambda>kd. label (snd kd) = 0) (entries p)"
    by (intro exI [of _ p] exI [of _ l]) (simp only: simp_thms)
next
  let ?infile = "[''a.jpg 7 1 1'', ''b.jpg 9 2 2'']"
  let ?infile' = "[''a.jpg 0 0 0'', ''b.jpg'']"
  have paths: "map (\<lambda>l. fst (fst (parse_line l))) ?infile =
      map (\<lambda>l. fst (fst (parse_line l))) ?infile'"
    by code_simp
  show "map_sum id fst (convert default_flags ''r/'' ?infile [] example_reader) =
      map_sum id fst (convert default_flags ''r/'' ?infile' [] example_reader)"
    using payload_label_is_zero
      [where fl = default_flags and root_folder = "''r/''" and infile = ?infile and perm = "[]"
         and encode = example_encode and p = new_pass and l = new_pass and infile' = ?infile'
         and line = "[]" and rd = example_reader] paths
    by (simp only: simp_thms)
qed

section \<open>The rows of the two stores (lines 136 and 181-207)\<close>

text \<open>
  Claim C2 (the rows of the label store). The claim: the label store has entries for
  exactly the rows whose payload read succeeded, so both stores hold the same rows.
  The payload loop skips a row whose read fails (line 136); the label loop
  (lines 181-215), the same loop without the read, has no such skip and writes an
  entry for every row. The run of the claim's example: five manifest rows, the file
  of the fourth (position 3) cannot be read, default flags. The keys of the payload
  store, then the keys of the label store: 4 entries and 5 entries, the label store
  with an entry under the key of the unreadable row.
\<close>

theorem label_store_keeps_unreadable_row:
  "map_sum id (map_prod (map fst) (map fst))
     (stored (convert default_flags ''r/''
        [''a.jpg 1 0 0'', ''b.jpg 2 0 0'', ''c.jpg 3 0 0'', ''missing.jpg 4 0 0'', ''e.jpg 5 0 0'']
        [] example_reader)) =
   Inr ([''00000000_a.jpg'', ''00000001_b.jpg'', ''00000002_c.jpg'', ''00000004_e.jpg''],
        [''00000000_a.jpg'', ''00000001_b.jpg'', ''00000002_c.jpg'', ''00000003_missing.jpg'',
         ''00000004_e.jpg''])"
  by code_simp

section \<open>The size check (lines 137-146 and 191-200)\<close>

text \<open>
  Claim C5 (size check). With \<^verbatim>\<open>--check_size\<close>, one iteration of the payload loop on
  a row whose read succeeds: the first record sets \<^verbatim>\<open>data_size\<close> to
  channels * height * width and is written; a later record whose data length equals
  \<^verbatim>\<open>data_size\<close> is written and leaves \<^verbatim>\<open>data_size\<close> as it is; a later record whose
  data length differs ends the loop at once in \<open>CheckEqFailed\<close>.

  For a whole payload pass with a memoryless reader and encoding types that can be
  determined, with \<open>f\<close> the first row whose read succeeds and \<open>rest\<close> the later
  ones: if every record of \<open>rest\<close> has the data length that the record of \<open>f\<close>
  fixes, the pass completes, the store holds the entries of \<open>f\<close> and \<open>rest\<close> in
  order and \<^verbatim>\<open>data_size\<close> is the size fixed by \<open>f\<close>; if one of them differs, the
  pass is \<open>CheckEqFailed\<close>. Without \<^verbatim>\<open>--check_size\<close> (or when no read succeeds) the
  pass completes and the store holds the entry of every row whose read succeeds,
  whatever its size.

  The label pass completes for all flags: every label record has data length 2,
  the size the first one fixes. A failed payload pass is the result of the run (no
  label store is written), and a completed one is followed by the label pass.
\<close>

theorem check_size_first_record_fixes_size:
  "(FLAGS_check_size fl \<and> i < length lines \<and> guess_enc fl (fst (lines ! i)) = Inr enc \<and>
    read_row fl rd root_folder lines i enc (cur st) = (True, d) \<longrightarrow>
      (\<not> data_size_initialized st \<longrightarrow>
         payload_loop fl rd root_folder lines i st =
           payload_loop fl rd root_folder lines (Suc i)
             (put_commit (key_str i (fst (lines ! i))) d
                (st\<lparr>cur := d, data_size := int32 (channels d * height d * width d),
                    data_size_initialized := True\<rparr>))) \<and>
      (data_size_initialized st \<and> int (length (data d)) = data_size st \<longrightarrow>
         payload_loop fl rd root_folder lines i st =
           payload_loop fl rd root_folder lines (Suc i)
             (put_commit (key_str i (fst (lines ! i))) d (st\<lparr>cur := d\<rparr>))) \<and>
      (data_size_initialized st \<and> int (length (data d)) \<noteq> data_size st \<longrightarrow>
         payload_loop fl rd root_folder lines i st = Inl CheckEqFailed)) \<and>
   (FLAGS_check_size fl \<and> memoryless fl rd root_folder lines \<and>
    (\<forall>j < length lines. \<exists>enc. guess_enc fl (fst (lines ! j)) = Inr enc) \<and>
    written_rows fl rd root_folder lines 0 = f # rest \<longrightarrow>
      (if \<forall>j \<in> set rest. data_len (row_rec fl rd root_folder lines j) =
                           shape_size (row_rec fl rd root_folder lines f)
       then \<exists>st. payload_pass fl rd root_folder lines = Inr st \<and>
                 entries st = map (row_entry fl rd root_folder lines) (f # rest) \<and>
                 data_size_initialized st \<and>
                 data_size st = shape_size (row_rec fl rd root_folder lines f)
       else payload_pass fl rd root_folder lines = Inl CheckEqFailed)) \<and>
   (memoryless fl rd root_folder lines \<and>
    (\<forall>j < length lines. \<exists>enc. guess_enc fl (fst (lines ! j)) = Inr enc) \<and>
    (\<not> FLAGS_check_size fl \<or> written_rows fl rd root_folder lines 0 = []) \<longrightarrow>
      (\<exists>st. payload_pass fl rd root_folder lines = Inr st \<and>
            entries st =
              map (row_entry fl rd root_folder lines) (written_rows fl rd root_folder lines 0))) \<and>
   (length lines \<le> length labels \<longrightarrow>
      (\<exists>st. label_pass fl lines labels = Inr st \<and>
            list_all (\<lambda>kd. data_len (snd kd) = 2) (entries st) \<and>
            (FLAGS_check_size fl \<and> lines \<noteq> [] \<longrightarrow>
               data_size_initialized st \<and> data_size st = 2))) \<and>
   (infile \<noteq> [] \<and> payload_pass fl rd root_folder (write_order fl perm infile) = Inl e \<longrightarrow>
      convert fl root_folder infile perm rd = Inl e) \<and>
   (infile \<noteq> [] \<and> payload_pass fl rd root_folder (write_order fl perm infile) = Inr p \<longrightarrow>
      (\<exists>l. convert fl root_folder infile perm rd = Inr (p, l)))"
proof (intro conjI impI)
  assume a: "FLAGS_check_size fl \<and> i < length lines \<and>
      guess_enc fl (fst (lines ! i)) = Inr enc \<and>
      read_row fl rd root_folder lines i enc (cur st) = (True, d)"
    and n: "\<not> data_size_initialized st"
  from a n have "size_check (FLAGS_check_size fl) d (st\<lparr>cur := d\<rparr>) =
      Inr (st\<lparr>cur := d, data_size := int32 (channels d * height d * width d),
              data_size_initialized := True\<rparr>)"
    by (simp add: size_check_def)
  with a show "payload_loop fl rd root_folder lines i st =
      payload_loop fl rd root_folder lines (Suc i)
        (put_commit (key_str i (fst (lines ! i))) d
           (st\<lparr>cur := d, data_size := int32 (channels d * height d * width d),
               data_size_initialized := True\<rparr>))"
    using payload_loop_write [where rd = rd and root = root_folder] by blast
next
  assume a: "FLAGS_check_size fl \<and> i < length lines \<and>
      guess_enc fl (fst (lines ! i)) = Inr enc \<and>
      read_row fl rd root_folder lines i enc (cur st) = (True, d)"
    and m: "data_size_initialized st \<and> int (length (data d)) = data_size st"
  from a m have "size_check (FLAGS_check_size fl) d (st\<lparr>cur := d\<rparr>) = Inr (st\<lparr>cur := d\<rparr>)"
    by (simp add: size_check_def)
  with a show "payload_loop fl rd root_folder lines i st =
      payload_loop fl rd root_folder lines (Suc i)
        (put_commit (key_str i (fst (lines ! i))) d (st\<lparr>cur := d\<rparr>))"
    using payload_loop_write [where rd = rd and root = root_folder] by blast
next
  assume a: "FLAGS_check_size fl \<and> i < length lines \<and>
      guess_enc fl (fst (lines ! i)) = Inr enc \<and>
      read_row fl rd root_folder lines i enc (cur st) = (True, d)"
    and m: "data_size_initialized st \<and> int (length (data d)) \<noteq> data_size st"
  from a m have "size_check (FLAGS_check_size fl) d (st\<lparr>cur := d\<rparr>) = Inl CheckEqFailed"
    by (simp add: size_check_def)
  with a show "payload_loop fl rd root_folder lines i st = Inl CheckEqFailed"
    using payload_loop_check_fail [where rd = rd and root = root_folder] by blast
next
  assume a: "FLAGS_check_size fl \<and> memoryless fl rd root_folder lines \<and>
    (\<forall>j < length lines. \<exists>enc. guess_enc fl (fst (lines ! j)) = Inr enc) \<and>
    written_rows fl rd root_folder lines 0 = f # rest"
  show "if \<forall>j \<in> set rest. data_len (row_rec fl rd root_folder lines j) =
                           shape_size (row_rec fl rd root_folder lines f)
       then \<exists>st. payload_pass fl rd root_folder lines = Inr st \<and>
                 entries st = map (row_entry fl rd root_folder lines) (f # rest) \<and>
                 data_size_initialized st \<and>
                 data_size st = shape_size (row_rec fl rd root_folder lines f)
       else payload_pass fl rd root_folder lines = Inl CheckEqFailed"
    by (rule payload_pass_checked) (use a in simp_all)
next
  assume a: "memoryless fl rd root_folder lines \<and>
    (\<forall>j < length lines. \<exists>enc. guess_enc fl (fst (lines ! j)) = Inr enc) \<and>
    (\<not> FLAGS_check_size fl \<or> written_rows fl rd root_folder lines 0 = [])"
  show "\<exists>st. payload_pass fl rd root_folder lines = Inr st \<and>
      entries st =
        map (row_entry fl rd root_folder lines) (written_rows fl rd root_folder lines 0)"
    by (rule payload_pass_unchecked) (use a in simp_all)
next
  assume "length lines \<le> length labels"
  then show "\<exists>st. label_pass fl lines labels = Inr st \<and>
      list_all (\<lambda>kd. data_len (snd kd) = 2) (entries st) \<and>
      (FLAGS_check_size fl \<and> lines \<noteq> [] \<longrightarrow> data_size_initialized st \<and> data_size st = 2)"
    by (rule label_pass_checked)
next
  assume "infile \<noteq> [] \<and> payload_pass fl rd root_folder (write_order fl perm infile) = Inl e"
  then show "convert fl root_folder infile perm rd = Inl e"
    using convert_payload_Inl by blast
next
  assume "infile \<noteq> [] \<and> payload_pass fl rd root_folder (write_order fl perm infile) = Inr p"
  then show "\<exists>l. convert fl root_folder infile perm rd = Inr (p, l)"
    using convert_payload_Inr by blast
qed

theorem check_size_first_record_fixes_size_witness:
  "payload_loop (default_flags\<lparr>FLAGS_check_size := True\<rparr>) example_reader ''r/''
     [(''a.jpg'', 0), (''b.jpg'', 0), (''big.jpg'', 0)] 0 new_pass = Inl CheckEqFailed \<and>
   payload_pass (default_flags\<lparr>FLAGS_check_size := True\<rparr>) example_reader ''r/''
     [(''a.jpg'', 0), (''b.jpg'', 0), (''big.jpg'', 0)] = Inl CheckEqFailed \<and>
   convert (default_flags\<lparr>FLAGS_check_size := True\<rparr>) ''r/''
     [''a.jpg 1 0 0'', ''b.jpg 2 0 0'', ''big.jpg 3 0 0''] [] example_reader
     = Inl CheckEqFailed \<and>
   (\<exists>st. payload_pass (default_flags\<lparr>FLAGS_check_size := True\<rparr>) example_reader ''r/''
           [(''a.jpg'', 0), (''missing.jpg'', 0), (''b.jpg'', 0)] = Inr st \<and>
         map fst (entries st) = [''00000000_a.jpg'', ''00000002_b.jpg''] \<and>
         data_size_initialized st \<and> data_size st = 2) \<and>
   (\<exists>p l. convert default_flags ''r/''
            [''a.jpg 1 0 0'', ''b.jpg 2 0 0'', ''big.jpg 3 0 0''] [] example_reader = Inr (p, l) \<and>
          map (\<lambda>kd. (fst kd, data (snd kd))) (entries p) =
            [(''00000000_a.jpg'', [7, 8]), (''00000001_b.jpg'', [7, 8]),
             (''00000002_big.jpg'', [1, 2, 3, 4])]) \<and>
   (\<exists>st. label_pass (default_flags\<lparr>FLAGS_check_size := True\<rparr>)
           [(''a.jpg'', 0), (''b.jpg'', 0)] [(1, 0), (2, 0)] = Inr st \<and>
         data_size_initialized st \<and> data_size st = 2)"
proof (intro conjI)
  let ?fl = "default_flags\<lparr>FLAGS_check_size := True\<rparr>"
  let ?lines = "[(''a.jpg'', 0::int), (''b.jpg'', 0), (''big.jpg'', 0)]"
  let ?infile = "[''a.jpg 1 0 0'', ''b.jpg 2 0 0'', ''big.jpg 3 0 0'']"
  let ?da = "\<lparr>channels = 1, height = 1, width = 2, data = [7, 8], label = 0,
              encoded = False\<rparr>"
  let ?db = "\<lparr>channels = 1, height = 2, width = 2, data = [1, 2, 3, 4], label = 0,
              encoded = False\<rparr>"
  let ?st1 = "put_commit (key_str 0 (fst (?lines ! 0))) ?da
                (new_pass\<lparr>cur := ?da, data_size := int32 (channels ?da * height ?da * width ?da),
                           data_size_initialized := True\<rparr>)"
  let ?st2 = "put_commit (key_str (Suc 0) (fst (?lines ! Suc 0))) ?da (?st1\<lparr>cur := ?da\<rparr>)"
  have chk: "FLAGS_check_size ?fl" by (simp add: default_flags_def)
  have g: "\<And>fn. guess_enc ?fl fn = Inr ''''"
    by (simp add: guess_enc_def default_flags_def)
  have r0: "read_row ?fl example_reader ''r/'' ?lines 0 '''' (cur new_pass) = (True, ?da)"
    by (simp add: example_reader_def)
  have r1: "read_row ?fl example_reader ''r/'' ?lines (Suc 0) '''' (cur ?st1) = (True, ?da)"
    by (simp add: example_reader_def)
  have r2: "read_row ?fl example_reader ''r/'' ?lines (Suc (Suc 0)) '''' (cur ?st2) = (True, ?db)"
    by (simp add: example_reader_def)
  have step0: "payload_loop ?fl example_reader ''r/'' ?lines 0 new_pass =
      payload_loop ?fl example_reader ''r/'' ?lines (Suc 0) ?st1"
    using check_size_first_record_fixes_size
      [where fl = ?fl and lines = ?lines and enc = "''''" and rd = example_reader
         and root_folder = "''r/''" and i = 0 and st = new_pass and d = ?da,
       THEN conjunct1, THEN mp] chk g r0
    by (simp add: new_pass_def int32_def)
  have step1: "payload_loop ?fl example_reader ''r/'' ?lines (Suc 0) ?st1 =
      payload_loop ?fl example_reader ''r/'' ?lines (Suc (Suc 0)) ?st2"
    using check_size_first_record_fixes_size
      [where fl = ?fl and lines = ?lines and enc = "''''" and rd = example_reader
         and root_folder = "''r/''" and i = "Suc 0" and st = ?st1 and d = ?da,
       THEN conjunct1, THEN mp] chk g r1
    by (simp add: put_commit_data_size int32_def)
  have step2: "payload_loop ?fl example_reader ''r/'' ?lines (Suc (Suc 0)) ?st2 = Inl CheckEqFailed"
    using check_size_first_record_fixes_size
      [where fl = ?fl and lines = ?lines and enc = "''''" and rd = example_reader
         and root_folder = "''r/''" and i = "Suc (Suc 0)" and st = ?st2 and d = ?db,
       THEN conjunct1, THEN mp] chk g r2
    by (simp add: put_commit_data_size int32_def)
  show l: "payload_loop ?fl example_reader ''r/'' ?lines 0 new_pass = Inl CheckEqFailed"
    by (simp only: step0 step1 step2)
  have m: "memoryless ?fl example_reader ''r/'' ?lines"
    by (simp add: memoryless_def example_reader_def)
  have w: "written_rows ?fl example_reader ''r/'' ?lines 0 = [0, 1, 2]"
    by code_simp
  have fit: "(\<forall>j \<in> set [1, 2]. data_len (row_rec ?fl example_reader ''r/'' ?lines j) =
               shape_size (row_rec ?fl example_reader ''r/'' ?lines 0)) = False"
    by code_simp
  have hyp: "FLAGS_check_size ?fl \<and> memoryless ?fl example_reader ''r/'' ?lines \<and>
      (\<forall>j < length ?lines. \<exists>enc. guess_enc ?fl (fst (?lines ! j)) = Inr enc) \<and>
      written_rows ?fl example_reader ''r/'' ?lines 0 = [0, 1, 2]"
    using chk m w g by blast
  show p: "payload_pass ?fl example_reader ''r/'' ?lines = Inl CheckEqFailed"
    using check_size_first_record_fixes_size
      [where fl = ?fl and lines = ?lines and rd = example_reader and root_folder = "''r/''"
         and f = 0 and rest = "[1, 2]",
       THEN conjunct2, THEN conjunct1, THEN mp, OF hyp]
    by (simp only: fit if_False)
  have wo: "write_order ?fl [] ?infile = ?lines" by code_simp
  have "?infile \<noteq> [] \<and>
      payload_pass ?fl example_reader ''r/'' (write_order ?fl [] ?infile) = Inl CheckEqFailed"
    by (simp only: wo p) simp
  then show "convert ?fl ''r/'' ?infile [] example_reader = Inl CheckEqFailed"
    by (rule check_size_first_record_fixes_size
      [THEN conjunct2, THEN conjunct2, THEN conjunct2, THEN conjunct2, THEN conjunct1, THEN mp])
next
  let ?fl = "default_flags\<lparr>FLAGS_check_size := True\<rparr>"
  let ?lines = "[(''a.jpg'', 0::int), (''missing.jpg'', 0), (''b.jpg'', 0)]"
  have chk: "FLAGS_check_size ?fl" by (simp add: default_flags_def)
  have g: "\<And>fn. guess_enc ?fl fn = Inr ''''"
    by (simp add: guess_enc_def default_flags_def)
  have m: "memoryless ?fl example_reader ''r/'' ?lines"
    by (simp add: memoryless_def example_reader_def)
  have w: "written_rows ?fl example_reader ''r/'' ?lines 0 = [0, 2]"
    by code_simp
  have fit: "(\<forall>j \<in> set [2]. data_len (row_rec ?fl example_reader ''r/'' ?lines j) =
               shape_size (row_rec ?fl example_reader ''r/'' ?lines 0)) = True"
    by code_simp
  have keys: "map fst (map (row_entry ?fl example_reader ''r/'' ?lines) [0, 2]) =
      [''00000000_a.jpg'', ''00000002_b.jpg'']"
    by code_simp
  have sz: "shape_size (row_rec ?fl example_reader ''r/'' ?lines 0) = 2"
    by code_simp
  have hyp: "FLAGS_check_size ?fl \<and> memoryless ?fl example_reader ''r/'' ?lines \<and>
      (\<forall>j < length ?lines. \<exists>enc. guess_enc ?fl (fst (?lines ! j)) = Inr enc) \<and>
      written_rows ?fl example_reader ''r/'' ?lines 0 = [0, 2]"
    using chk m w g by blast
  have "\<exists>st. payload_pass ?fl example_reader ''r/'' ?lines = Inr st \<and>
      entries st = map (row_entry ?fl example_reader ''r/'' ?lines) [0, 2] \<and>
      data_size_initialized st \<and>
      data_size st = shape_size (row_rec ?fl example_reader ''r/'' ?lines 0)"
    using check_size_first_record_fixes_size
      [where fl = ?fl and lines = ?lines and rd = example_reader and root_folder = "''r/''"
         and f = 0 and rest = "[2]",
       THEN conjunct2, THEN conjunct1, THEN mp, OF hyp]
    by (simp only: fit if_True)
  then obtain st where "payload_pass ?fl example_reader ''r/'' ?lines = Inr st"
    and "entries st = map (row_entry ?fl example_reader ''r/'' ?lines) [0, 2]"
    and "data_size_initialized st"
    and "data_size st = shape_size (row_rec ?fl example_reader ''r/'' ?lines 0)"
    by blast
  then show "\<exists>st. payload_pass ?fl example_reader ''r/'' ?lines = Inr st \<and>
      map fst (entries st) = [''00000000_a.jpg'', ''00000002_b.jpg''] \<and>
      data_size_initialized st \<and> data_size st = 2"
    by (intro exI [of _ st]) (simp only: keys sz simp_thms)
next
  let ?lines = "[(''a.jpg'', 0::int), (''b.jpg'', 0), (''big.jpg'', 0)]"
  let ?infile = "[''a.jpg 1 0 0'', ''b.jpg 2 0 0'', ''big.jpg 3 0 0'']"
  have g: "\<And>fn. guess_enc default_flags fn = Inr ''''"
    by (simp add: guess_enc_def default_flags_def)
  have m: "memoryless default_flags example_reader ''r/'' ?lines"
    by (simp add: memoryless_def example_reader_def)
  have nchk: "\<not> FLAGS_check_size default_flags" by (simp add: default_flags_def)
  have recs: "map (\<lambda>kd. (fst kd, data (snd kd)))
       (map (row_entry default_flags example_reader ''r/'' ?lines)
          (written_rows default_flags example_reader ''r/'' ?lines 0)) =
      [(''00000000_a.jpg'', [7, 8]), (''00000001_b.jpg'', [7, 8]),
       (''00000002_big.jpg'', [1, 2, 3, 4])]"
    by code_simp
  have hyp: "memoryless default_flags example_reader ''r/'' ?lines \<and>
      (\<forall>j < length ?lines. \<exists>enc. guess_enc default_flags (fst (?lines ! j)) = Inr enc) \<and>
      (\<not> FLAGS_check_size default_flags \<or>
       written_rows default_flags example_reader ''r/'' ?lines 0 = [])"
    using m nchk g by blast
  from check_size_first_record_fixes_size
      [where fl = default_flags and lines = ?lines and rd = example_reader
         and root_folder = "''r/''",
       THEN conjunct2, THEN conjunct2, THEN conjunct1, THEN mp, OF hyp]
  obtain p where p: "payload_pass default_flags example_reader ''r/'' ?lines = Inr p"
    and e: "entries p = map (row_entry default_flags example_reader ''r/'' ?lines)
              (written_rows default_flags example_reader ''r/'' ?lines 0)"
    by blast
  have wo: "write_order default_flags [] ?infile = ?lines" by code_simp
  have "?infile \<noteq> [] \<and>
      payload_pass default_flags example_reader ''r/'' (write_order default_flags [] ?infile)
        = Inr p"
    by (simp only: wo p) simp
  from check_size_first_record_fixes_size
      [THEN conjunct2, THEN conjunct2, THEN conjunct2, THEN conjunct2, THEN conjunct2,
       THEN mp, OF this]
  obtain l where c: "convert default_flags ''r/'' ?infile [] example_reader = Inr (p, l)" ..
  show "\<exists>p l. convert default_flags ''r/'' ?infile [] example_reader = Inr (p, l) \<and>
      map (\<lambda>kd. (fst kd, data (snd kd))) (entries p) =
        [(''00000000_a.jpg'', [7, 8]), (''00000001_b.jpg'', [7, 8]),
         (''00000002_big.jpg'', [1, 2, 3, 4])]"
    by (intro exI [of _ p] exI [of _ l]) (simp only: c e recs simp_thms)
next
  let ?fl = "default_flags\<lparr>FLAGS_check_size := True\<rparr>"
  have chk: "FLAGS_check_size ?fl" by (simp add: default_flags_def)
  have len: "length [(''a.jpg'', 0::int), (''b.jpg'', 0)] \<le> length [(1::int, 0::int), (2, 0)]"
    by simp
  from check_size_first_record_fixes_size
      [where fl = ?fl,
       THEN conjunct2, THEN conjunct2, THEN conjunct2, THEN conjunct1, THEN mp, OF len]
  obtain st where "label_pass ?fl [(''a.jpg'', 0), (''b.jpg'', 0)] [(1, 0), (2, 0)] = Inr st"
    and "FLAGS_check_size ?fl \<and> [(''a.jpg'', 0::int), (''b.jpg'', 0)] \<noteq> [] \<longrightarrow>
           data_size_initialized st \<and> data_size st = 2"
    by blast
  with chk show "\<exists>st. label_pass ?fl [(''a.jpg'', 0), (''b.jpg'', 0)] [(1, 0), (2, 0)] = Inr st \<and>
      data_size_initialized st \<and> data_size st = 2"
    by (intro exI [of _ st]) simp
qed

end
